theory Spec2Isabelle
  imports Main "HOL-Library.Monad_Syntax" "HOL-Library.Sublist"
begin

section \<open>Strings\<close>

text \<open>
  A Python \<open>str\<close> is modelled as a \<open>string\<close>; a \<open>char\<close> stands for the Unicode code
  point of the same number, so the model covers texts over the code points 0 to 255.
  On these code points \<open>str.isspace\<close> and the regular expression class \<open>\s\<close> agree, and
  \<open>\d\<close> is the class of the ten ASCII digits.
\<close>

definition chr_range :: "char \<Rightarrow> char \<Rightarrow> char \<Rightarrow> bool" where
  "chr_range lo hi c = ((of_char lo :: nat) \<le> of_char c \<and> (of_char c :: nat) \<le> of_char hi)"

definition isspace :: "char \<Rightarrow> bool" where
  "isspace c = (let n = (of_char c :: nat)
     in (9 \<le> n \<and> n \<le> 13) \<or> (28 \<le> n \<and> n \<le> 32) \<or> n = 133 \<or> n = 160)"

definition isdigit :: "char \<Rightarrow> bool" where
  "isdigit c = chr_range (CHR ''0'') (CHR ''9'') c"

definition isalnum :: "char \<Rightarrow> bool" where
  "isalnum c = (chr_range (CHR ''a'') (CHR ''z'') c \<or> chr_range (CHR ''A'') (CHR ''Z'') c
     \<or> chr_range (CHR ''0'') (CHR ''9'') c)"

definition lower_char :: "char \<Rightarrow> char" where
  "lower_char c = (let n = (of_char c :: nat)
     in if (65 \<le> n \<and> n \<le> 90) \<or> (192 \<le> n \<and> n \<le> 222 \<and> n \<noteq> 215)
        then char_of (n + 32) else c)"

definition lower :: "string \<Rightarrow> string" where
  "lower s = map lower_char s"

definition strip :: "string \<Rightarrow> string" where
  "strip s = rev (dropWhile isspace (rev (dropWhile isspace s)))"

text \<open>\<open>s.split(sep)\<close> for a separator of one character: \<open>k\<close> separators give \<open>k + 1\<close> pieces.\<close>

fun split :: "char \<Rightarrow> string \<Rightarrow> string list" where
  "split sep [] = [[]]"
| "split sep (c # cs) =
     (if c = sep then [] # split sep cs
      else (case split sep cs of [] \<Rightarrow> [[c]] | p # ps \<Rightarrow> (c # p) # ps))"

text \<open>\<open>int(s)\<close> on the digit groups of a match: surrounding whitespace is ignored.\<close>

definition digit_val :: "char \<Rightarrow> nat" where
  "digit_val c = of_char c - 48"

definition py_int :: "string \<Rightarrow> nat" where
  "py_int s = foldl (\<lambda>n c. 10 * n + digit_val c) 0 (strip s)"

datatype py_error = ValueError | OverflowError | LookupError

section \<open>Regular expressions as backtracking matchers\<close>

text \<open>
  A matcher maps the input to the list of all its matches at the start of the input, each
  the matched text and the rest of the input, in the order in which the backtracking engine
  of \<open>re\<close> tries them. A sequence of matchers is the bind of the list monad; the match
  that \<open>re\<close> reports is the first element of the list.
\<close>

type_synonym matcher = "string \<Rightarrow> (string \<times> string) list"

definition lit :: "string \<Rightarrow> matcher" where
  "lit p s = (if prefix p s then [(p, drop (length p) s)] else [])"

text \<open>A greedy repetition of a character class, at least \<open>lo\<close> times: longest match first.\<close>

definition greedy :: "nat \<Rightarrow> (char \<Rightarrow> bool) \<Rightarrow> matcher" where
  "greedy lo P s = map (\<lambda>n. (take n s, drop n s)) (rev [lo ..< Suc (length (takeWhile P s))])"

definition exactly :: "nat \<Rightarrow> (char \<Rightarrow> bool) \<Rightarrow> matcher" where
  "exactly n P s = (if n \<le> length s \<and> list_all P (take n s) then [(take n s, drop n s)] else [])"

definition seq :: "matcher \<Rightarrow> matcher \<Rightarrow> matcher" where
  "seq m1 m2 s = do { (a, r) \<leftarrow> m1 s; (b, r') \<leftarrow> m2 r; [(a @ b, r')] }"

definition alt :: "matcher \<Rightarrow> matcher \<Rightarrow> matcher" where
  "alt m1 m2 s = m1 s @ m2 s"

definition dquote :: char where
  "dquote = CHR 0x22"

definition newline :: char where
  "newline = CHR 0x0A"

section \<open>Parsing the search response\<close>

record track =
  title :: string
  artist :: string
  release_date :: string
  track_id :: string

text \<open>The date group: \<open>([0-9]{4}-[0-9]{2}-[0-9]{2}|[0-9]{4}-[0-9]{2}|[0-9]{4}|Unknown)\<close>.\<close>

definition date_group :: matcher where
  "date_group =
     alt (seq (exactly 4 isdigit) (seq (lit ''-'') (seq (exactly 2 isdigit)
            (seq (lit ''-'') (exactly 2 isdigit)))))
    (alt (seq (exactly 4 isdigit) (seq (lit ''-'') (exactly 2 isdigit)))
    (alt (exactly 4 isdigit)
         (lit ''Unknown'')))"

text \<open>
  The pattern of \<open>extract_track_info_with_dates\<close> up to and including \<open>ID:\s*\<close>, with the
  groups 1 to 3 and the rest of the line.
\<close>

definition track_head :: "string \<Rightarrow> ((string \<times> string \<times> string) \<times> string) list" where
  "track_head line = do {
     (_, r) \<leftarrow> greedy 1 isdigit line;
     (_, r) \<leftarrow> lit ''.'' r;
     (_, r) \<leftarrow> greedy 0 isspace r;
     (_, r) \<leftarrow> lit [dquote] r;
     (g1, r) \<leftarrow> greedy 1 (\<lambda>c. c \<noteq> dquote) r;
     (_, r) \<leftarrow> lit [dquote] r;
     (_, r) \<leftarrow> greedy 1 isspace r;
     (_, r) \<leftarrow> lit ''by'' r;
     (_, r) \<leftarrow> greedy 1 isspace r;
     (g2, r) \<leftarrow> greedy 1 (\<lambda>c. c \<noteq> CHR ''('') r;
     (_, r) \<leftarrow> greedy 0 isspace r;
     (_, r) \<leftarrow> lit ''('' r;
     (_, r) \<leftarrow> greedy 1 (\<lambda>c. c \<noteq> CHR '')'') r;
     (_, r) \<leftarrow> lit '')'' r;
     (_, r) \<leftarrow> greedy 0 isspace r;
     (_, r) \<leftarrow> lit ''-'' r;
     (_, r) \<leftarrow> greedy 0 isspace r;
     (_, r) \<leftarrow> lit ''Released:'' r;
     (_, r) \<leftarrow> greedy 0 isspace r;
     (g3, r) \<leftarrow> date_group r;
     (_, r) \<leftarrow> greedy 0 isspace r;
     (_, r) \<leftarrow> lit ''-'' r;
     (_, r) \<leftarrow> greedy 0 isspace r;
     (_, r) \<leftarrow> lit ''ID:'' r;
     (_, r) \<leftarrow> greedy 0 isspace r;
     [((g1, g2, g3), r)]
   }"

text \<open>The whole pattern: the head, then group 4, \<open>([a-zA-Z0-9]+)\<close>.\<close>

definition track_re :: "string \<Rightarrow> ((string \<times> string \<times> string \<times> string) \<times> string) list" where
  "track_re line = do {
     ((g1, g2, g3), r) \<leftarrow> track_head line;
     (g4, r) \<leftarrow> greedy 1 isalnum r;
     [((g1, g2, g3, g4), r)]
   }"

text \<open>
  \<open>re.search\<close> with this pattern: the pattern starts with \<open>^\<close> and no flag is given, so
  it can match at the start of the line only; the groups are those of the first match.
\<close>

definition track_search :: "string \<Rightarrow> (string \<times> string \<times> string \<times> string) option" where
  "track_search line = (case track_re line of [] \<Rightarrow> None | (g, _) # _ \<Rightarrow> Some g)"

definition track_of_line :: "string \<Rightarrow> track list" where
  "track_of_line line =
     (case track_search line of
        None \<Rightarrow> []
      | Some (g1, g2, g3, g4) \<Rightarrow>
          [\<lparr>title = strip g1, artist = strip g2, release_date = strip g3, track_id = strip g4\<rparr>])"

primrec extract_lines :: "track list \<Rightarrow> string list \<Rightarrow> track list" where
  "extract_lines tracks [] = tracks"
| "extract_lines tracks (line # lines) = extract_lines (tracks @ track_of_line line) lines"

definition extract_track_info_with_dates :: "string \<Rightarrow> track list" where
  "extract_track_info_with_dates search_text = extract_lines [] (split newline search_text)"

section \<open>Release dates\<close>

text \<open>
  A naive \<open>datetime\<close>. Python compares two of them as the tuples of their fields.
\<close>

record datetime =
  year :: nat
  month :: nat
  day :: nat
  hour :: nat
  minute :: nat
  second :: nat
  microsecond :: nat

definition dt_tuple :: "datetime \<Rightarrow> nat list" where
  "dt_tuple d = [year d, month d, day d, hour d, minute d, second d, microsecond d]"

fun tuple_ge :: "nat list \<Rightarrow> nat list \<Rightarrow> bool" where
  "tuple_ge (x # xs) (y # ys) = (y < x \<or> (x = y \<and> tuple_ge xs ys))"
| "tuple_ge xs [] = True"
| "tuple_ge [] (y # ys) = False"

definition dt_ge :: "datetime \<Rightarrow> datetime \<Rightarrow> bool" where
  "dt_ge a b = tuple_ge (dt_tuple a) (dt_tuple b)"

definition is_leap :: "nat \<Rightarrow> bool" where
  "is_leap y = (y mod 4 = 0 \<and> (y mod 100 \<noteq> 0 \<or> y mod 400 = 0))"

definition days_in_month :: "nat \<Rightarrow> nat \<Rightarrow> nat" where
  "days_in_month y m =
     (if m = 2 then (if is_leap y then 29 else 28)
      else if m = 4 \<or> m = 6 \<or> m = 9 \<or> m = 11 then 30 else 31)"

definition midnight :: "nat \<Rightarrow> nat \<Rightarrow> nat \<Rightarrow> datetime" where
  "midnight y m d =
     \<lparr>year = y, month = m, day = d, hour = 0, minute = 0, second = 0, microsecond = 0\<rparr>"

text \<open>
  \<open>datetime.strptime(s, '%Y-%m-%d')\<close>. The library turns the format into the pattern
  \<open>(\d\d\d\d)-(1[0-2]|0[1-9]|[1-9])-(3[0-1]|[1-2]\d|0[1-9]|[1-9]| [1-9])\<close>, takes its first
  match at the start of \<open>s\<close>, and raises \<open>ValueError\<close> when there is none, when the match does
  not end where \<open>s\<close> ends, and when the numbers are no date of the calendar (the years are
  1 to 9999).
\<close>

definition one_of :: "string \<Rightarrow> matcher" where
  "one_of cs = exactly 1 (\<lambda>c. c \<in> set cs)"

definition month_group :: matcher where
  "month_group =
     alt (seq (lit ''1'') (one_of ''012''))
    (alt (seq (lit ''0'') (one_of ''123456789''))
         (one_of ''123456789''))"

definition day_group :: matcher where
  "day_group =
     alt (seq (lit ''3'') (one_of ''01''))
    (alt (seq (one_of ''12'') (exactly 1 isdigit))
    (alt (seq (lit ''0'') (one_of ''123456789''))
    (alt (one_of ''123456789'')
         (seq (lit '' '') (one_of ''123456789'')))))"

definition strptime_re :: "string \<Rightarrow> ((string \<times> string \<times> string) \<times> string) list" where
  "strptime_re s = do {
     (y, r) \<leftarrow> exactly 4 isdigit s;
     (_, r) \<leftarrow> lit ''-'' r;
     (m, r) \<leftarrow> month_group r;
     (_, r) \<leftarrow> lit ''-'' r;
     (d, r) \<leftarrow> day_group r;
     [((y, m, d), r)]
   }"

definition strptime :: "string \<Rightarrow> py_error + datetime" where
  "strptime s =
     (case strptime_re s of
        [] \<Rightarrow> Inl ValueError
      | ((y, m, d), r) # _ \<Rightarrow>
          if r \<noteq> [] then Inl ValueError
          else if py_int y < 1 \<or> days_in_month (py_int y) (py_int m) < py_int d
          then Inl ValueError
          else Inr (midnight (py_int y) (py_int m) (py_int d)))"

text \<open>
  \<open>parse_spotify_date\<close>: the \<open>try\<close> catches \<open>ValueError\<close> only, any other exception would
  leave the function; \<open>None\<close> is the unknown date.
\<close>

definition catch_ValueError :: "py_error + datetime \<Rightarrow> py_error + datetime option" where
  "catch_ValueError r =
     (case r of Inr d \<Rightarrow> Inr (Some d)
      | Inl e \<Rightarrow> if e = ValueError then Inr None else Inl e)"

definition parse_spotify_date :: "string \<Rightarrow> py_error + datetime option" where
  "parse_spotify_date date_str =
     (let date_str = strip date_str
      in if date_str = ''Unknown'' then Inr None
         else if length date_str = 10 then catch_ValueError (strptime date_str)
         else if length date_str = 7 then catch_ValueError (strptime (date_str @ ''-01''))
         else if length date_str = 4 then catch_ValueError (strptime (date_str @ ''-01-01''))
         else Inr None)"

definition is_recent_release :: "string \<Rightarrow> datetime \<Rightarrow> py_error + bool" where
  "is_recent_release release_date_str cutoff_date =
     (case parse_spotify_date release_date_str of
        Inl e \<Rightarrow> Inl e
      | Inr None \<Rightarrow> Inr False
      | Inr (Some d) \<Rightarrow> Inr (dt_ge d cutoff_date))"

section \<open>The clock and the server process\<close>

text \<open>
  The state outside the program: the wall clock, given as the value that each successive
  call of \<open>datetime.now()\<close> returns, and the pipes of the server process, given as the
  requests written so far and the responses that the server will answer, in order.
  Printing is left out.
\<close>

datatype request =
    SearchSpotify string
  | AddTracksToPlaylist string "string list"

text \<open>
  What the program observes of a response: \<open>NoResult\<close> is a response that is skipped (the
  line is no JSON, or it is empty, or it has no \<open>"result"\<close>), \<open>Malformed\<close> is one with a
  \<open>"result"\<close> in which the lookup of \<open>["content"][0]["text"]\<close> raises, and \<open>Result text\<close>
  is one that carries a text.
\<close>

datatype response = NoResult | Malformed | Result string

record world =
  clock :: "nat \<Rightarrow> datetime"
  clock_reads :: nat
  stdin :: "(nat \<times> request) list"
  stdout :: "response list"

definition datetime_now :: "world \<Rightarrow> datetime \<times> world" where
  "datetime_now w = (clock w (clock_reads w), w\<lparr>clock_reads := Suc (clock_reads w)\<rparr>)"

text \<open>
  \<open>d - timedelta(days=n)\<close>: the date moves back by \<open>n\<close> days and the time of day stays;
  a result before the year 1 is an \<open>OverflowError\<close>.
\<close>

definition prev_day :: "datetime \<Rightarrow> datetime option" where
  "prev_day d =
     (if 1 < day d then Some (d\<lparr>day := day d - 1\<rparr>)
      else if 1 < month d
        then Some (d\<lparr>month := month d - 1, day := days_in_month (year d) (month d - 1)\<rparr>)
      else if 1 < year d then Some (d\<lparr>year := year d - 1, month := 12, day := 31\<rparr>)
      else None)"

primrec minus_days :: "nat \<Rightarrow> datetime \<Rightarrow> py_error + datetime" where
  "minus_days 0 d = Inr d"
| "minus_days (Suc n) d =
     (case prev_day d of None \<Rightarrow> Inl OverflowError | Some p \<Rightarrow> minus_days n p)"

definition get_cutoff_date :: "world \<Rightarrow> py_error + datetime \<times> world" where
  "get_cutoff_date w =
     (case datetime_now w of (now, w') \<Rightarrow>
        (case minus_days 7 now of Inl e \<Rightarrow> Inl e | Inr cutoff \<Rightarrow> Inr (cutoff, w')))"

text \<open>
  \<open>send_mcp_request\<close> writes the request and reads one line; at the end of the output the
  line is empty, which is no JSON, so the result is \<open>None\<close>.
\<close>

definition send_mcp_request :: "world \<Rightarrow> nat \<Rightarrow> request \<Rightarrow> response \<times> world" where
  "send_mcp_request w request_id req =
     (case stdout w of
        [] \<Rightarrow> (NoResult, w\<lparr>stdin := stdin w @ [(request_id, req)]\<rparr>)
      | resp # rest \<Rightarrow> (resp, w\<lparr>stdin := stdin w @ [(request_id, req)], stdout := rest\<rparr>))"

section \<open>The selection for one artist\<close>

definition FAVORITE_ARTISTS :: "string list" where
  "FAVORITE_ARTISTS =
     [''Lil Tecca'', ''Playboi Carti'', ''Travis Scott'', ''Don Toliver'', ''Lil Uzi Vert'',
      ''Future'', ''Metro Boomin'', ''21 Savage'', ''PlaqueBoyMax'', ''4batz'']"

text \<open>The test \<open>artist.lower() in track['artist'].lower()\<close>.\<close>

definition artist_matches :: "string \<Rightarrow> track \<Rightarrow> bool" where
  "artist_matches name t = sublist (lower name) (lower (artist t))"

text \<open>The test \<open>any(t['id'] == track['id'] for t in found_tracks)\<close>.\<close>

definition already_found :: "track list \<Rightarrow> track \<Rightarrow> bool" where
  "already_found found_tracks t = list_ex (\<lambda>f. track_id f = track_id t) found_tracks"

text \<open>The loop over the tracks of one response.\<close>

fun track_loop :: "string \<Rightarrow> datetime \<Rightarrow> track list \<Rightarrow> track list \<Rightarrow> py_error + track list" where
  "track_loop name cutoff_date found_tracks [] = Inr found_tracks"
| "track_loop name cutoff_date found_tracks (t # ts) =
     (if artist_matches name t then
        (case is_recent_release (release_date t) cutoff_date of
           Inl e \<Rightarrow> Inl e
         | Inr recent \<Rightarrow>
             if recent then
               (if \<not> already_found found_tracks t
                then track_loop name cutoff_date (found_tracks @ [t]) ts
                else track_loop name cutoff_date found_tracks ts)
             else track_loop name cutoff_date found_tracks ts)
      else track_loop name cutoff_date found_tracks ts)"

text \<open>The loop over the search queries; the state is the tracks found, the next request id
  and the world.\<close>

fun query_loop ::
  "string \<Rightarrow> datetime \<Rightarrow> string list \<Rightarrow> track list \<times> nat \<times> world
     \<Rightarrow> py_error + track list \<times> nat \<times> world" where
  "query_loop name cutoff_date [] st = Inr st"
| "query_loop name cutoff_date (query # queries) (found_tracks, request_id, w) =
     (case send_mcp_request w request_id (SearchSpotify query) of
        (NoResult, w') \<Rightarrow>
          query_loop name cutoff_date queries (found_tracks, request_id + 1, w')
      | (Malformed, w') \<Rightarrow> Inl LookupError
      | (Result search_text, w') \<Rightarrow>
          (case track_loop name cutoff_date found_tracks
                  (extract_track_info_with_dates search_text) of
             Inl e \<Rightarrow> Inl e
           | Inr found_tracks' \<Rightarrow>
               query_loop name cutoff_date queries (found_tracks', request_id + 1, w')))"

definition search_queries :: "string \<Rightarrow> string list" where
  "search_queries name = [''artist:'' @ name, name, name @ '' 2025'']"

definition search_artist_tracks ::
  "world \<Rightarrow> nat \<Rightarrow> string \<Rightarrow> py_error + (track list \<times> nat) \<times> world" where
  "search_artist_tracks w request_id name =
     (case get_cutoff_date w of
        Inl e \<Rightarrow> Inl e
      | Inr (cutoff_date, w1) \<Rightarrow>
          (case query_loop name cutoff_date (search_queries name) ([], request_id, w1) of
             Inl e \<Rightarrow> Inl e
           | Inr (found_tracks, request_id', w') \<Rightarrow> Inr ((take 3 found_tracks, request_id'), w')))"

text \<open>
  The selection on one list of candidates: the loop over the tracks, started with nothing
  found, and the slice \<open>[:3]\<close> of the return.
\<close>

definition select_for_artist :: "string \<Rightarrow> datetime \<Rightarrow> track list \<Rightarrow> py_error + track list" where
  "select_for_artist name cutoff_date candidates =
     (case track_loop name cutoff_date [] candidates of
        Inl e \<Rightarrow> Inl e
      | Inr found_tracks \<Rightarrow> Inr (take 3 found_tracks))"

section \<open>Collecting the tracks of all artists\<close>

text \<open>
  Steps 3 and 4 of \<open>create_weekly_playlist\<close>: the loop over the artists, with the state
  \<open>all_tracks\<close>, \<open>track_ids_to_add\<close>, the next request id and the world, and the request
  that adds the collected ids to the playlist. An exception ends the run before that request.
\<close>

fun artist_loop ::
  "string list \<Rightarrow> track list \<times> string list \<times> nat \<times> world
     \<Rightarrow> py_error + track list \<times> string list \<times> nat \<times> world" where
  "artist_loop [] st = Inr st"
| "artist_loop (name # names) (all_tracks, track_ids_to_add, request_id, w) =
     (case search_artist_tracks w request_id name of
        Inl e \<Rightarrow> Inl e
      | Inr ((tracks, request_id'), w') \<Rightarrow>
          artist_loop names
            (all_tracks @ tracks, track_ids_to_add @ map track_id tracks, request_id', w'))"

definition add_recent_tracks ::
  "world \<Rightarrow> nat \<Rightarrow> string \<Rightarrow> string list \<Rightarrow> py_error + world" where
  "add_recent_tracks w request_id playlist_id artists =
     (case artist_loop artists ([], [], request_id, w) of
        Inl e \<Rightarrow> Inl e
      | Inr (all_tracks, track_ids_to_add, request_id', w') \<Rightarrow>
          if track_ids_to_add \<noteq> []
          then Inr (snd (send_mcp_request w' request_id'
                      (AddTracksToPlaylist playlist_id track_ids_to_add)))
          else Inr w')"

text \<open>The first component of the return value of \<open>search_artist_tracks\<close>.\<close>

definition returned_tracks :: "world \<Rightarrow> nat \<Rightarrow> string \<Rightarrow> py_error + track list" where
  "returned_tracks w request_id name =
     (case search_artist_tracks w request_id name of
        Inl e \<Rightarrow> Inl e
      | Inr ((tracks, request_id'), w') \<Rightarrow> Inr tracks)"

text \<open>The list \<open>track_ids_to_add\<close> at the end of the loop over the artists.\<close>

definition track_ids_to_add :: "world \<Rightarrow> nat \<Rightarrow> string list \<Rightarrow> py_error + string list" where
  "track_ids_to_add w request_id artists =
     (case artist_loop artists ([], [], request_id, w) of
        Inl e \<Rightarrow> Inl e
      | Inr (all_tracks, ids, request_id', w') \<Rightarrow> Inr ids)"

text \<open>The last request that a run has written to the server.\<close>

definition last_request :: "py_error + world \<Rightarrow> py_error + request" where
  "last_request r = (case r of Inl e \<Rightarrow> Inl e | Inr w \<Rightarrow> Inr (snd (last (stdin w))))"

section \<open>Notions used in the statements and in the proofs\<close>

text \<open>
  The candidates of one call of \<open>search_artist_tracks\<close>: the tracks parsed from the responses
  to its three queries, in the order of the queries.
\<close>

definition response_tracks :: "response \<Rightarrow> track list" where
  "response_tracks resp =
     (case resp of Result search_text \<Rightarrow> extract_track_info_with_dates search_text | _ \<Rightarrow> [])"

definition candidates :: "world \<Rightarrow> track list" where
  "candidates w = concat (map response_tracks (take 3 (stdout w)))"

text \<open>The cutoff that a call of \<open>get_cutoff_date\<close> in this world computes.\<close>

definition cutoff_read :: "world \<Rightarrow> py_error + datetime" where
  "cutoff_read w = map_sum id fst (get_cutoff_date w)"

definition found_of :: "py_error + track list \<times> nat \<times> world \<Rightarrow> py_error + track list" where
  "found_of r = (case r of Inl e \<Rightarrow> Inl e | Inr (found, rid, w) \<Rightarrow> Inr found)"

definition recent :: "string \<Rightarrow> datetime \<Rightarrow> bool" where
  "recent s c = (is_recent_release s c = Inr True)"

definition accepts :: "string \<Rightarrow> datetime \<Rightarrow> track \<Rightarrow> bool" where
  "accepts name c t = (artist_matches name t \<and> recent (release_date t) c)"

text \<open>
  Following the words of the specification: the query occurs in the text as a substring,
  up to the case of the letters.
\<close>

definition occurs_ci :: "string \<Rightarrow> string \<Rightarrow> bool" where
  "occurs_ci query txt = (\<exists>pre mid post. txt = pre @ mid @ post \<and> lower mid = lower query)"

text \<open>
  Following the words of the specification: the shape of a token, which is the token with
  each digit replaced by the digit 9.
\<close>

definition shape :: "string \<Rightarrow> string" where
  "shape t = map (\<lambda>c. if isdigit c then CHR ''9'' else c) t"

text \<open>Decimal numbers of two and of four digits, and the dates of the calendar.\<close>

definition digit_char :: "nat \<Rightarrow> char" where
  "digit_char k = ''0123456789'' ! (k mod 10)"

definition two_digits :: "nat \<Rightarrow> string" where
  "two_digits k = [digit_char (k div 10), digit_char k]"

definition four_digits :: "nat \<Rightarrow> string" where
  "four_digits k =
     [digit_char (k div 1000), digit_char (k div 100), digit_char (k div 10), digit_char k]"

definition valid_date :: "nat \<Rightarrow> nat \<Rightarrow> nat \<Rightarrow> bool" where
  "valid_date y m d =
     (1 \<le> y \<and> y \<le> 9999 \<and> 1 \<le> m \<and> m \<le> 12 \<and> 1 \<le> d \<and> d \<le> days_in_month y m)"

text \<open>The two-character texts that the month and the day pattern of \<open>strptime\<close> accept.\<close>

definition month_ok :: "char \<Rightarrow> char \<Rightarrow> bool" where
  "month_ok a b =
     ((a = CHR ''1'' \<and> b \<in> set ''012'') \<or> (a = CHR ''0'' \<and> b \<in> set ''123456789''))"

definition day_ok :: "char \<Rightarrow> char \<Rightarrow> bool" where
  "day_ok a b =
     ((a = CHR ''3'' \<and> b \<in> set ''01'') \<or> (a \<in> set ''12'' \<and> isdigit b)
      \<or> (a = CHR ''0'' \<and> b \<in> set ''123456789'')
      \<or> (a = CHR '' '' \<and> b \<in> set ''123456789''))"

text \<open>A matcher is sound when each match splits the input.\<close>

definition sound :: "matcher \<Rightarrow> bool" where
  "sound m = (\<forall>s a r. (a, r) \<in> set (m s) \<longrightarrow> s = a @ r)"

definition id_tail :: "string \<Rightarrow> string \<Rightarrow> bool" where
  "id_tail s r = (\<exists>p ws. s = p @ ''ID:'' @ ws @ r \<and> list_all isspace ws)"

section \<open>Example inputs\<close>

text \<open>A line of a search response, in the format of the server.\<close>

definition search_line ::
  "string \<Rightarrow> string \<Rightarrow> string \<Rightarrow> string \<Rightarrow> string \<Rightarrow> string \<Rightarrow> string" where
  "search_line n ti ar duration date tid =
     n @ ''. '' @ [dquote] @ ti @ [dquote] @ '' by '' @ ar @ '' ('' @ duration
       @ '') - Released: '' @ date @ '' - ID: '' @ tid"

text \<open>The fields with which such a line is in the format: an index of digits, a title
  without a double quote, artists without an opening parenthesis, a duration without a
  closing parenthesis, and an id token whose first character is a letter or a digit.\<close>

definition wellformed_fields :: "string \<Rightarrow> string \<Rightarrow> string \<Rightarrow> string \<Rightarrow> string \<Rightarrow> bool" where
  "wellformed_fields n ti ar duration tid =
     (n \<noteq> [] \<and> list_all isdigit n \<and> ti \<noteq> [] \<and> dquote \<notin> set ti
      \<and> ar \<noteq> [] \<and> CHR ''('' \<notin> set ar \<and> \<not> isspace (hd ar)
      \<and> duration \<noteq> [] \<and> CHR '')'' \<notin> set duration
      \<and> tid \<noteq> [] \<and> isalnum (hd tid))"

definition ex_clock :: "nat \<Rightarrow> datetime" where
  "ex_clock k =
     \<lparr>year = 2025, month = 1, day = 10, hour = 9, minute = 30, second = k mod 60,
      microsecond = 0\<rparr>"

definition ex_cutoff :: datetime where
  "ex_cutoff =
     \<lparr>year = 2025, month = 1, day = 3, hour = 9, minute = 30, second = 0, microsecond = 0\<rparr>"

definition ex_track :: "string \<Rightarrow> string \<Rightarrow> string \<Rightarrow> string \<Rightarrow> track" where
  "ex_track ti ar date tid = \<lparr>title = ti, artist = ar, release_date = date, track_id = tid\<rparr>"

definition ex_text :: string where
  "ex_text =
     search_line ''1'' ''Alpha'' ''Future'' ''3:01'' ''2025-01-08'' ''id1'' @ [newline]
     @ search_line ''2'' ''Beta'' ''Metro Boomin, FUTURE'' ''2:59'' ''2025-01-09'' ''id2'' @ [newline]
     @ search_line ''3'' ''Alpha'' ''Future'' ''3:01'' ''2025-01-08'' ''id1'' @ [newline]
     @ search_line ''4'' ''Gamma'' ''Future'' ''3:20'' ''2025-01-03'' ''id3'' @ [newline]
     @ search_line ''5'' ''Delta'' ''Future'' ''4:00'' ''2025-01-07'' ''id4'' @ [newline]
     @ search_line ''6'' ''Eta'' ''Future'' ''4:10'' ''2025-01-10'' ''id5''"

definition ex_candidates :: "track list" where
  "ex_candidates =
     [ex_track ''Alpha'' ''Future'' ''2025-01-08'' ''id1'',
      ex_track ''Beta'' ''Metro Boomin, FUTURE'' ''2025-01-09'' ''id2'',
      ex_track ''Alpha'' ''Future'' ''2025-01-08'' ''id1'',
      ex_track ''Gamma'' ''Future'' ''2025-01-03'' ''id3'',
      ex_track ''Delta'' ''Future'' ''2025-01-07'' ''id4'',
      ex_track ''Eta'' ''Future'' ''2025-01-10'' ''id5'']"

definition ex_selection :: "track list" where
  "ex_selection =
     [ex_track ''Alpha'' ''Future'' ''2025-01-08'' ''id1'',
      ex_track ''Beta'' ''Metro Boomin, FUTURE'' ''2025-01-09'' ''id2'',
      ex_track ''Delta'' ''Future'' ''2025-01-07'' ''id4'']"

definition ex_world :: world where
  "ex_world = \<lparr>clock = ex_clock, clock_reads = 0, stdin = [],
     stdout = [Result ex_text, NoResult, NoResult]\<rparr>"

text \<open>A second world: other requests before, another reading of the clock with the same
  value, and other responses after the third.\<close>

definition ex_world2 :: world where
  "ex_world2 = \<lparr>clock = (\<lambda>k. ex_clock (k - 4)), clock_reads = 4,
     stdin = [(1, SearchSpotify ''artist:Lil Tecca'')],
     stdout = [Result ex_text, NoResult, NoResult, Malformed]\<rparr>"

text \<open>A run in which the server answers the first query for Future and the first query for
  Metro Boomin with the same track, and nothing else.\<close>

definition ex_shared_line :: string where
  "ex_shared_line =
     search_line ''1'' ''Good Vibes'' ''Metro Boomin, Future'' ''3:20'' ''2025-01-05'' ''abc123''"

definition ex_run :: world where
  "ex_run = \<lparr>clock = ex_clock, clock_reads = 0, stdin = [],
     stdout = replicate 15 NoResult @ [Result ex_shared_line, NoResult, NoResult,
       Result ex_shared_line]\<rparr>"

text \<open>A line with month 13 in the date, and a line with a hyphen in the id.\<close>

definition ex_month13_line :: string where
  "ex_month13_line = search_line ''1'' ''Good Vibes'' ''Future'' ''3:20'' ''2025-13-01'' ''abc123''"

definition ex_hyphen_line :: string where
  "ex_hyphen_line = search_line ''1'' ''Good Vibes'' ''Future'' ''3:20'' ''2025-01-01'' ''abc-123''"

section \<open>Facts about matchers\<close>

lemma soundD: "sound m \<Longrightarrow> (a, r) \<in> set (m s) \<Longrightarrow> s = a @ r"
  by (simp add: sound_def)

lemma sound_lit: "sound (lit p)"
  by (auto simp: sound_def lit_def prefix_def split: if_splits)

lemma lit_result: "(a, r) \<in> set (lit p s) \<Longrightarrow> a = p"
  by (auto simp: lit_def split: if_splits)

lemma greedy_result:
  assumes "(a, r) \<in> set (greedy lo P s)"
  shows "s = a @ r \<and> list_all P a"
proof -
  from assms have "\<exists>n. n \<le> length (takeWhile P s) \<and> a = take n s \<and> r = drop n s"
    by (auto simp: greedy_def less_Suc_eq_le simp del: upt_Suc)
  then obtain n where n: "n \<le> length (takeWhile P s)" "a = take n s" "r = drop n s"
    by blast
  have "takeWhile P s = take (length (takeWhile P s)) s" by (rule takeWhile_eq_take)
  then have "take n (takeWhile P s) = take n s"
    using n(1) by (metis min.absorb1 take_take)
  then have "set (take n s) \<subseteq> set (takeWhile P s)" by (metis set_take_subset)
  then have "list_all P (take n s)" by (auto simp: list_all_iff dest: set_takeWhileD)
  with n show ?thesis by simp
qed

lemma sound_greedy: "sound (greedy lo P)"
  using greedy_result by (simp add: sound_def)

lemma sound_exactly: "sound (exactly n P)"
  by (auto simp: sound_def exactly_def split: if_splits)

lemma sound_seq: "sound m1 \<Longrightarrow> sound m2 \<Longrightarrow> sound (seq m1 m2)"
  unfolding sound_def seq_def List.bind_def by fastforce

lemma sound_alt: "sound m1 \<Longrightarrow> sound m2 \<Longrightarrow> sound (alt m1 m2)"
  by (auto simp: sound_def alt_def)

lemma sound_date_group: "sound date_group"
  unfolding date_group_def by (intro sound_alt sound_seq sound_exactly sound_lit)

text \<open>The first match of a greedy repetition is the longest one.\<close>

lemma greedy_first:
  assumes a: "greedy lo P s = x # xs"
  shows "x = (takeWhile P s, dropWhile P s) \<and> lo \<le> length (takeWhile P s)"
proof -
  let ?n = "length (takeWhile P s)"
  have le: "lo \<le> ?n"
  proof (rule ccontr)
    assume "\<not> lo \<le> ?n"
    then have "greedy lo P s = []" by (simp add: greedy_def)
    with a show False by simp
  qed
  then have "[lo ..< Suc ?n] = [lo ..< ?n] @ [?n]" by simp
  then have "greedy lo P s
      = (take ?n s, drop ?n s) # map (\<lambda>n. (take n s, drop n s)) (rev [lo ..< ?n])"
    by (simp add: greedy_def)
  with a have "x = (take ?n s, drop ?n s)" by simp
  moreover have "take ?n s = takeWhile P s" by (rule takeWhile_eq_take [symmetric])
  moreover have "drop ?n s = dropWhile P s" by (rule dropWhile_eq_drop [symmetric])
  ultimately show ?thesis using le by simp
qed

lemma greedy_nonempty:
  assumes "lo \<le> length (takeWhile P s)"
  shows "\<exists>xs. greedy lo P s = (takeWhile P s, dropWhile P s) # xs"
proof -
  have "greedy lo P s \<noteq> []" using assms by (simp add: greedy_def)
  then obtain x xs where g: "greedy lo P s = x # xs" by (cases "greedy lo P s") auto
  from greedy_first [OF g] g show ?thesis by simp
qed

lemma bind_first: "List.bind xs f = y # ys \<Longrightarrow> \<exists>x \<in> set xs. \<exists>zs. f x = y # zs"
proof (induction xs)
  case Nil
  then show ?case by simp
next
  case (Cons x xs)
  then show ?case by (cases "f x") auto
qed

lemma one_of_Cons: "one_of cs (c # s) = (if c \<in> set cs then [([c], s)] else [])"
  by (simp add: one_of_def exactly_def)

lemma lit1_Cons: "lit [x] (c # s) = (if c = x then [([x], s)] else [])"
  by (auto simp: lit_def)

section \<open>Facts about strings\<close>

lemma isalnum_not_isspace: "isalnum c \<Longrightarrow> \<not> isspace c"
  by (auto simp: isalnum_def isspace_def chr_range_def Let_def)

lemma strip_same:
  assumes "s \<noteq> []" "\<not> isspace (hd s)" "\<not> isspace (last s)"
  shows "strip s = s"
proof -
  have "dropWhile isspace s = s" using assms(1,2) by (cases s) auto
  moreover have "dropWhile isspace (rev s) = rev s"
    using assms(1,3) by (cases "rev s") (auto simp: hd_rev)
  ultimately show ?thesis by (simp add: strip_def)
qed

lemma strip_strip: "strip (strip s) = strip s"
proof (cases "strip s = []")
  case True
  have "strip [] = []" by (simp add: strip_def)
  with True show ?thesis by simp
next
  case False
  let ?a = "dropWhile isspace s"
  let ?t = "strip s"
  have t: "?t = rev (dropWhile isspace (rev ?a))" by (simp add: strip_def)
  have "?a = rev (dropWhile isspace (rev ?a)) @ rev (takeWhile isspace (rev ?a))"
    by (metis rev_append rev_rev_ident takeWhile_dropWhile_id)
  then have a: "?a = ?t @ rev (takeWhile isspace (rev ?a))" by (simp only: t)
  have "hd ?a = hd ?t" using False a by (metis hd_append2)
  moreover have "?a \<noteq> []" using False a by (metis Nil_is_append_conv)
  then have "\<not> isspace (hd ?a)" by (rule hd_dropWhile)
  ultimately have h: "\<not> isspace (hd ?t)" by simp
  have "dropWhile isspace (rev ?a) \<noteq> []" using False t by auto
  then have "\<not> isspace (hd (dropWhile isspace (rev ?a)))" by (rule hd_dropWhile)
  moreover have "last ?t = hd (dropWhile isspace (rev ?a))" using t by (simp add: last_rev)
  ultimately have l: "\<not> isspace (last ?t)" by simp
  from False h l show ?thesis by (rule strip_same)
qed

lemma digit_char_cases:
  "\<forall>k \<in> set [0..<10]. isdigit (digit_char k) \<and> \<not> isspace (digit_char k)
      \<and> digit_val (digit_char k) = k \<and> digit_char k \<noteq> CHR ''-''"
  by code_simp

lemma digit_char_props:
  "isdigit (digit_char k)" "\<not> isspace (digit_char k)" "digit_val (digit_char k) = k mod 10"
  "digit_char k \<noteq> CHR ''-''"
proof -
  have m: "k mod 10 \<in> set [0..<10]" by simp
  have e: "digit_char k = digit_char (k mod 10)" by (simp add: digit_char_def)
  from digit_char_cases m have
    "isdigit (digit_char (k mod 10)) \<and> \<not> isspace (digit_char (k mod 10))
      \<and> digit_val (digit_char (k mod 10)) = k mod 10 \<and> digit_char (k mod 10) \<noteq> CHR ''-''"
    by blast
  with e show "isdigit (digit_char k)" "\<not> isspace (digit_char k)"
    "digit_val (digit_char k) = k mod 10" "digit_char k \<noteq> CHR ''-''"
    by simp_all
qed

lemma strip_iso:
  "strip (four_digits y @ ''-'' @ two_digits m @ ''-'' @ two_digits d)
     = four_digits y @ ''-'' @ two_digits m @ ''-'' @ two_digits d"
  by (rule strip_same) (simp_all add: four_digits_def two_digits_def digit_char_props)

lemma strip_two: "strip (two_digits m) = two_digits m"
  by (rule strip_same) (simp_all add: two_digits_def digit_char_props)

lemma strip_four: "strip (four_digits m) = four_digits m"
  by (rule strip_same) (simp_all add: four_digits_def digit_char_props)

lemma py_int_two: "m < 100 \<Longrightarrow> py_int (two_digits m) = m"
proof -
  assume m: "m < 100"
  have "py_int (two_digits m) = 10 * (m div 10 mod 10) + m mod 10"
    unfolding py_int_def strip_two by (simp add: two_digits_def digit_char_props)
  moreover have "m div 10 mod 10 = m div 10" using m by simp
  ultimately show ?thesis by simp
qed

lemma decimal4:
  fixes y :: nat
  shows "10 * (10 * (10 * (y div 10 div 10 div 10) + y div 10 div 10 mod 10) + y div 10 mod 10)
           + y mod 10 = y"
proof -
  define a b c where "a = y div 10" and "b = a div 10" and "c = b div 10"
  have "10 * (10 * (10 * c + b mod 10) + a mod 10) + y mod 10
      = 10 * (10 * (10 * (b div 10) + b mod 10) + a mod 10) + y mod 10"
    by (simp only: c_def)
  also have "\<dots> = 10 * (10 * b + a mod 10) + y mod 10" by (simp only: mult_div_mod_eq)
  also have "\<dots> = 10 * (10 * (a div 10) + a mod 10) + y mod 10" by (simp only: b_def)
  also have "\<dots> = 10 * a + y mod 10" by (simp only: mult_div_mod_eq)
  also have "\<dots> = 10 * (y div 10) + y mod 10" by (simp only: a_def)
  also have "\<dots> = y" by (simp only: mult_div_mod_eq)
  finally show ?thesis by (simp only: a_def b_def c_def)
qed

lemma py_int_four: "y < 10000 \<Longrightarrow> py_int (four_digits y) = y"
proof -
  assume y: "y < 10000"
  have "py_int (four_digits y) =
      10 * (10 * (10 * (y div 1000 mod 10) + y div 100 mod 10) + y div 10 mod 10) + y mod 10"
    unfolding py_int_def strip_four by (simp add: four_digits_def digit_char_props)
  moreover have "y div 1000 mod 10 = y div 1000" using y by simp
  moreover have "y div 1000 = y div 10 div 10 div 10" by (simp add: div_mult2_eq [symmetric])
  moreover have "y div 100 = y div 10 div 10" by (simp add: div_mult2_eq [symmetric])
  ultimately show ?thesis by (simp only: decimal4)
qed

section \<open>Facts about the date parser\<close>

lemma strptime_cases: "strptime s = Inl ValueError \<or> (\<exists>d. strptime s = Inr d)"
  by (simp add: strptime_def split: list.splits prod.splits)

lemma catch_strptime: "\<exists>r. catch_ValueError (strptime s) = Inr r"
  using strptime_cases [of s] by (auto simp: catch_ValueError_def)

lemma parse_spotify_date_total: "\<exists>r. parse_spotify_date s = Inr r"
  by (simp add: parse_spotify_date_def Let_def catch_strptime)

lemma is_recent_release_total: "is_recent_release s c = Inr (recent s c)"
  using parse_spotify_date_total [of s]
  by (auto simp: is_recent_release_def recent_def split: option.splits)

lemma year_step: "exactly 4 isdigit (four_digits y @ rest) = [(four_digits y, rest)]"
  by (simp add: exactly_def four_digits_def digit_char_props)

lemma month_group_two:
  "month_group (a # b # rest) =
     (if a = CHR ''1'' \<and> b \<in> set ''012'' then [([a, b], rest)] else [])
     @ (if a = CHR ''0'' \<and> b \<in> set ''123456789'' then [([a, b], rest)] else [])
     @ (if a \<in> set ''123456789'' then [([a], b # rest)] else [])"
  by (simp add: month_group_def alt_def seq_def one_of_Cons lit1_Cons del: set_simps)

lemma month_step:
  "b \<noteq> CHR ''-'' \<Longrightarrow>
   List.bind (month_group (a # b # CHR ''-'' # rest))
      (\<lambda>(mm, r). List.bind (lit ''-'' r) (\<lambda>(u, r). f mm r))
     = (if month_ok a b then f [a, b] rest else [])"
  by (simp add: month_group_two month_ok_def lit1_Cons del: set_simps)

lemma day_group_two:
  "day_group [a, b] =
     (if a = CHR ''3'' \<and> b \<in> set ''01'' then [([a, b], [])] else [])
     @ (if a \<in> set ''12'' \<and> isdigit b then [([a, b], [])] else [])
     @ (if a = CHR ''0'' \<and> b \<in> set ''123456789'' then [([a, b], [])] else [])
     @ (if a \<in> set ''123456789'' then [([a], [b])] else [])
     @ (if a = CHR '' '' \<and> b \<in> set ''123456789'' then [([a, b], [])] else [])"
  by (simp add: day_group_def alt_def seq_def one_of_Cons lit1_Cons exactly_def del: set_simps)

lemma day_step:
  "(case List.bind (day_group [a, b]) (\<lambda>(dd, r). [((yy, mm, dd), r)]) of
      [] \<Rightarrow> E
    | ((y, m, d), r) # _ \<Rightarrow> if r \<noteq> [] then E else G y m d)
   = (if day_ok a b then G yy mm [a, b] else E)"
  apply (simp add: day_group_two day_ok_def del: set_simps)
  apply (simp add: isdigit_def chr_range_def)
  done

lemma month_ok_cases:
  "\<forall>m \<in> set [0..<100]. month_ok (digit_char (m div 10)) (digit_char m) = (1 \<le> m \<and> m \<le> 12)"
  by code_simp

lemma day_ok_cases:
  "\<forall>d \<in> set [0..<100]. day_ok (digit_char (d div 10)) (digit_char d) = (1 \<le> d \<and> d \<le> 31)"
  by code_simp

lemma month_ok_two:
  "m < 100 \<Longrightarrow> month_ok (digit_char (m div 10)) (digit_char m) = (1 \<le> m \<and> m \<le> 12)"
  using month_ok_cases by simp

lemma day_ok_two:
  "d < 100 \<Longrightarrow> day_ok (digit_char (d div 10)) (digit_char d) = (1 \<le> d \<and> d \<le> 31)"
  using day_ok_cases by simp

lemma days_in_month_le: "days_in_month y m \<le> 31"
  by (simp add: days_in_month_def)

text \<open>\<open>strptime\<close> on four digits, two digits and a text of two characters for the day.\<close>

lemma strptime_day:
  assumes "y < 10000" "m < 100"
  shows "strptime (four_digits y @ ''-'' @ two_digits m @ ''-'' @ [a, b]) =
     (if 1 \<le> y \<and> 1 \<le> m \<and> m \<le> 12 \<and> day_ok a b \<and> py_int [a, b] \<le> days_in_month y m
      then Inr (midnight y m (py_int [a, b])) else Inl ValueError)"
proof -
  let ?G = "\<lambda>ys ms ds.
     if py_int ys < 1 \<or> days_in_month (py_int ys) (py_int ms) < py_int ds
     then Inl ValueError else Inr (midnight (py_int ys) (py_int ms) (py_int ds))"
  have re: "strptime_re (four_digits y @ ''-'' @ two_digits m @ ''-'' @ [a, b]) =
      (if 1 \<le> m \<and> m \<le> 12
       then List.bind (day_group [a, b])
              (\<lambda>(dd, r). [((four_digits y, two_digits m, dd), r)])
       else [])"
    unfolding strptime_re_def year_step
    by (simp add: lit1_Cons two_digits_def [of m] month_step digit_char_props
          month_ok_two [OF assms(2)])
  have "strptime (four_digits y @ ''-'' @ two_digits m @ ''-'' @ [a, b]) =
      (if 1 \<le> m \<and> m \<le> 12 \<and> day_ok a b
       then ?G (four_digits y) (two_digits m) [a, b]
       else Inl ValueError)"
  proof (cases "1 \<le> m \<and> m \<le> 12")
    case True
    have "strptime (four_digits y @ ''-'' @ two_digits m @ ''-'' @ [a, b]) =
      (case List.bind (day_group [a, b])
              (\<lambda>(dd, r). [((four_digits y, two_digits m, dd), r)]) of
         [] \<Rightarrow> Inl ValueError
       | ((y, m, d), r) # _ \<Rightarrow> if r \<noteq> [] then Inl ValueError else ?G y m d)"
      unfolding strptime_def re using True by simp
    also have "\<dots> = (if day_ok a b then ?G (four_digits y) (two_digits m) [a, b]
        else Inl ValueError)"
      by (rule day_step)
    finally show ?thesis using True by simp
  next
    case False
    then show ?thesis unfolding strptime_def re by auto
  qed
  also have "\<dots> = (if 1 \<le> y \<and> 1 \<le> m \<and> m \<le> 12 \<and> day_ok a b \<and> py_int [a, b] \<le> days_in_month y m
      then Inr (midnight y m (py_int [a, b])) else Inl ValueError)"
    using assms by (auto simp: py_int_four py_int_two)
  finally show ?thesis .
qed

lemma strptime_digits:
  assumes "y < 10000" "m < 100" "d < 100"
  shows "strptime (four_digits y @ ''-'' @ two_digits m @ ''-'' @ two_digits d) =
     (if valid_date y m d then Inr (midnight y m d) else Inl ValueError)"
proof -
  have "strptime (four_digits y @ ''-'' @ two_digits m @ ''-'' @ two_digits d) =
     (if 1 \<le> y \<and> 1 \<le> m \<and> m \<le> 12 \<and> (1 \<le> d \<and> d \<le> 31) \<and> d \<le> days_in_month y m
      then Inr (midnight y m d) else Inl ValueError)"
    using strptime_day [OF assms(1,2), of "digit_char (d div 10)" "digit_char d"]
      day_ok_two [OF assms(3)] py_int_two [OF assms(3)]
    by (simp only: two_digits_def [of d])
  also have "\<dots> = (if valid_date y m d then Inr (midnight y m d) else Inl ValueError)"
    using assms(1) days_in_month_le [of y m] by (auto simp: valid_date_def)
  finally show ?thesis .
qed

lemma blank_day_cases:
  "\<forall>d \<in> set [0..<10]. day_ok (CHR '' '') (digit_char d) = (1 \<le> d)
      \<and> py_int [CHR '' '', digit_char d] = d"
  by code_simp

lemma strptime_blank_day:
  assumes "y < 10000" "m < 100" "d < 10"
  shows "strptime (four_digits y @ ''-'' @ two_digits m @ ''- '' @ [digit_char d]) =
     (if valid_date y m d then Inr (midnight y m d) else Inl ValueError)"
proof -
  from blank_day_cases assms(3) have
    b: "day_ok (CHR '' '') (digit_char d) = (1 \<le> d)" "py_int [CHR '' '', digit_char d] = d"
    by simp_all
  have "strptime (four_digits y @ ''-'' @ two_digits m @ ''-'' @ [CHR '' '', digit_char d]) =
     (if 1 \<le> y \<and> 1 \<le> m \<and> m \<le> 12 \<and> 1 \<le> d \<and> d \<le> days_in_month y m
      then Inr (midnight y m d) else Inl ValueError)"
    using strptime_day [OF assms(1,2), of "CHR '' ''" "digit_char d"] by (simp only: b)
  also have "\<dots> = (if valid_date y m d then Inr (midnight y m d) else Inl ValueError)"
    using assms(1) by (auto simp: valid_date_def)
  finally show ?thesis by simp
qed

lemma parse_strip: "parse_spotify_date (strip s) = parse_spotify_date s"
  by (simp add: parse_spotify_date_def strip_strip)

lemma two_digits_1: "two_digits 1 = ''01''"
  by code_simp

lemma parse_full:
  assumes "y < 10000" "m < 100" "d < 100"
    and "strip s = four_digits y @ ''-'' @ two_digits m @ ''-'' @ two_digits d"
  shows "parse_spotify_date s = Inr (if valid_date y m d then Some (midnight y m d) else None)"
proof -
  have "strip s \<noteq> ''Unknown''" "length (strip s) = 10"
    using assms(4) by (simp_all add: four_digits_def two_digits_def)
  then have "parse_spotify_date s = catch_ValueError (strptime (strip s))"
    by (simp add: parse_spotify_date_def)
  then show ?thesis
    unfolding assms(4) strptime_digits [OF assms(1-3)] by (simp add: catch_ValueError_def)
qed

lemma parse_month:
  assumes "y < 10000" "m < 100"
    and "strip s = four_digits y @ ''-'' @ two_digits m"
  shows "parse_spotify_date s = Inr (if valid_date y m 1 then Some (midnight y m 1) else None)"
proof -
  have "strip s \<noteq> ''Unknown''" "length (strip s) = 7"
    using assms(3) by (simp_all add: four_digits_def two_digits_def)
  then have "parse_spotify_date s = catch_ValueError (strptime (strip s @ ''-01''))"
    by (simp add: parse_spotify_date_def)
  moreover have "strip s @ ''-01'' = four_digits y @ ''-'' @ two_digits m @ ''-'' @ two_digits 1"
    unfolding two_digits_1 by (simp add: assms(3))
  ultimately show ?thesis
    using strptime_digits [OF assms(1,2), of 1] by (simp add: catch_ValueError_def)
qed

lemma parse_year:
  assumes "y < 10000" and "strip s = four_digits y"
  shows "parse_spotify_date s = Inr (if 1 \<le> y then Some (midnight y 1 1) else None)"
proof -
  have "strip s \<noteq> ''Unknown''" "length (strip s) = 4"
    using assms(2) by (simp_all add: four_digits_def)
  then have "parse_spotify_date s = catch_ValueError (strptime (strip s @ ''-01-01''))"
    by (simp add: parse_spotify_date_def)
  moreover have
    "strip s @ ''-01-01'' = four_digits y @ ''-'' @ two_digits 1 @ ''-'' @ two_digits 1"
    unfolding two_digits_1 by (simp add: assms(2))
  moreover have "valid_date y 1 1 = (1 \<le> y)"
    using assms(1) by (simp add: valid_date_def days_in_month_def)
  ultimately show ?thesis
    using strptime_digits [OF assms(1), of 1 1] by (simp add: catch_ValueError_def)
qed

lemma parse_other: "length (strip s) \<notin> {4, 7, 10} \<Longrightarrow> parse_spotify_date s = Inr None"
  by (auto simp: parse_spotify_date_def Let_def)

lemma parse_unknown: "strip s = ''Unknown'' \<Longrightarrow> parse_spotify_date s = Inr None"
  by (simp add: parse_spotify_date_def)

lemma parse_blank_day:
  assumes "y < 10000" "m < 100" "d < 10"
    and "strip s = four_digits y @ ''-'' @ two_digits m @ ''- '' @ [digit_char d]"
  shows "parse_spotify_date s = Inr (if valid_date y m d then Some (midnight y m d) else None)"
proof -
  have "strip s \<noteq> ''Unknown''" "length (strip s) = 10"
    using assms(4) by (simp_all add: four_digits_def two_digits_def)
  then have "parse_spotify_date s = catch_ValueError (strptime (strip s))"
    by (simp add: parse_spotify_date_def)
  then show ?thesis
    unfolding assms(4) strptime_blank_day [OF assms(1-3)] by (simp add: catch_ValueError_def)
qed


lemma month_group_results:
  assumes "(mm, r') \<in> set (month_group r)"
  shows "r = mm @ r' \<and> ((\<exists>a b. mm = [a, b] \<and> month_ok a b) \<or> (\<exists>a. mm = [a] \<and> a \<in> set ''123456789''))"
proof (cases r)
  case Nil
  with assms show ?thesis
    by (simp add: month_group_def alt_def seq_def one_of_def exactly_def lit_def)
next
  case (Cons a r1)
  show ?thesis
  proof (cases r1)
    case Nil
    with Cons assms show ?thesis
      by (auto simp: month_group_def alt_def seq_def one_of_def exactly_def lit1_Cons
          split: if_splits)
  next
    case (Cons b r2)
    with \<open>r = a # r1\<close> assms show ?thesis
      unfolding month_group_two month_ok_def
      by (auto simp: month_group_two split: if_splits simp del: set_simps)
  qed
qed


lemma day_group_Cons2:
  "day_group (a # b # rest) =
     (if a = CHR ''3'' \<and> b \<in> set ''01'' then [([a, b], rest)] else [])
     @ (if a \<in> set ''12'' \<and> isdigit b then [([a, b], rest)] else [])
     @ (if a = CHR ''0'' \<and> b \<in> set ''123456789'' then [([a, b], rest)] else [])
     @ (if a \<in> set ''123456789'' then [([a], b # rest)] else [])
     @ (if a = CHR '' '' \<and> b \<in> set ''123456789'' then [([a, b], rest)] else [])"
  by (simp add: day_group_def alt_def seq_def one_of_Cons lit1_Cons exactly_def del: set_simps)

lemma day_group_results:
  assumes "(dd, r') \<in> set (day_group r)"
  shows "r = dd @ r' \<and> ((\<exists>a b. dd = [a, b] \<and> day_ok a b) \<or> (\<exists>a. dd = [a] \<and> a \<in> set ''123456789''))"
proof (cases r)
  case Nil
  with assms show ?thesis
    by (simp add: day_group_def alt_def seq_def one_of_def exactly_def lit_def)
next
  case (Cons a r1)
  show ?thesis
  proof (cases r1)
    case Nil
    with Cons assms show ?thesis
      by (auto simp: day_group_def alt_def seq_def one_of_def exactly_def lit1_Cons
          split: if_splits)
  next
    case (Cons b r2)
    with \<open>r = a # r1\<close> assms show ?thesis
      unfolding day_ok_def
      by (auto simp: day_group_Cons2 split: if_splits simp del: set_simps)
  qed
qed

lemma exactly_results:
  "(a, r') \<in> set (exactly n P r) \<Longrightarrow> r = a @ r' \<and> length a = n \<and> list_all P a"
  by (auto simp: exactly_def split: if_splits)

lemma strptime_re_results:
  assumes "((ys, ms, ds), r') \<in> set (strptime_re s)"
  shows "s = ys @ ''-'' @ ms @ ''-'' @ ds @ r' \<and> length ys = 4 \<and> list_all isdigit ys
     \<and> ((\<exists>a b. ms = [a, b] \<and> month_ok a b) \<or> (\<exists>a. ms = [a] \<and> a \<in> set ''123456789''))
     \<and> ((\<exists>a b. ds = [a, b] \<and> day_ok a b) \<or> (\<exists>a. ds = [a] \<and> a \<in> set ''123456789''))"
proof -
  from assms obtain r1 r2 r3 r4 u v where
    1: "(ys, r1) \<in> set (exactly 4 isdigit s)" and 2: "(u, r2) \<in> set (lit ''-'' r1)"
    and 3: "(ms, r3) \<in> set (month_group r2)" and 4: "(v, r4) \<in> set (lit ''-'' r3)"
    and 5: "(ds, r') \<in> set (day_group r4)"
    unfolding strptime_re_def List.bind_def by auto
  from exactly_results [OF 1] have a: "s = ys @ r1" "length ys = 4" "list_all isdigit ys"
    by simp_all
  from soundD [OF sound_lit 2] lit_result [OF 2] have b: "r1 = ''-'' @ r2" by simp
  from month_group_results [OF 3] have c: "r2 = ms @ r3"
    "(\<exists>a b. ms = [a, b] \<and> month_ok a b) \<or> (\<exists>a. ms = [a] \<and> a \<in> set ''123456789'')"
    by simp_all
  from soundD [OF sound_lit 4] lit_result [OF 4] have d: "r3 = ''-'' @ r4" by simp
  from day_group_results [OF 5] have e: "r4 = ds @ r'"
    "(\<exists>a b. ds = [a, b] \<and> day_ok a b) \<or> (\<exists>a. ds = [a] \<and> a \<in> set ''123456789'')"
    by simp_all
  from a b c d e show ?thesis by simp
qed

lemma strptime_Inr:
  assumes "strptime s = Inr dt"
  shows "\<exists>ys ms ds. s = ys @ ''-'' @ ms @ ''-'' @ ds \<and> length ys = 4 \<and> list_all isdigit ys
     \<and> ((\<exists>a b. ms = [a, b] \<and> month_ok a b) \<or> (\<exists>a. ms = [a] \<and> a \<in> set ''123456789''))
     \<and> ((\<exists>a b. ds = [a, b] \<and> day_ok a b) \<or> (\<exists>a. ds = [a] \<and> a \<in> set ''123456789''))"
proof -
  from assms obtain ys ms ds rest where "strptime_re s = ((ys, ms, ds), []) # rest"
    by (auto simp: strptime_def split: list.splits prod.splits if_splits)
  then have "((ys, ms, ds), []) \<in> set (strptime_re s)" by simp
  from strptime_re_results [OF this]
  have "s = ys @ ''-'' @ ms @ ''-'' @ ds \<and> length ys = 4 \<and> list_all isdigit ys
     \<and> ((\<exists>a b. ms = [a, b] \<and> month_ok a b) \<or> (\<exists>a. ms = [a] \<and> a \<in> set ''123456789''))
     \<and> ((\<exists>a b. ds = [a, b] \<and> day_ok a b) \<or> (\<exists>a. ds = [a] \<and> a \<in> set ''123456789''))"
    by (simp del: set_simps)
  then show ?thesis by blast
qed




lemma shape_append: "shape (xs @ ys) = shape xs @ shape ys"
  by (simp add: shape_def)

lemma shape_all_digits: "list_all isdigit ys \<Longrightarrow> shape ys = replicate (length ys) (CHR ''9'')"
  by (induction ys) (simp_all add: shape_def)

lemma shape_digits4: "length ys = 4 \<Longrightarrow> list_all isdigit ys \<Longrightarrow> shape ys = ''9999''"
  by (simp add: shape_all_digits numeral_eq_Suc)

lemma not_digit: "\<not> isdigit (CHR ''-'')" "\<not> isdigit (CHR '' '')"
  by code_simp+

lemma shape_dash: "shape (CHR ''-'' # xs) = CHR ''-'' # shape xs"
  by (simp add: shape_def not_digit)

lemma digits_isdigit: "c \<in> set ''0123456789'' \<Longrightarrow> isdigit c"
proof -
  have "list_all isdigit ''0123456789''" by code_simp
  then show "c \<in> set ''0123456789'' \<Longrightarrow> isdigit c" unfolding list_all_iff by blast
qed

lemma month_ok_digits: "month_ok a b \<Longrightarrow> a \<in> set ''0123456789'' \<and> b \<in> set ''0123456789''"
  unfolding month_ok_def by fastforce

lemma month_ok_shape: "month_ok a b \<Longrightarrow> shape [a, b] = ''99''"
  using month_ok_digits [of a b] digits_isdigit by (simp add: shape_def del: set_simps)

lemma day_ok_digits:
  "day_ok a b \<Longrightarrow> (a \<in> set ''0123456789'' \<or> a = CHR '' '') \<and> (b \<in> set ''0123456789'' \<or> isdigit b)"
  unfolding day_ok_def by fastforce

lemma day_ok_shape: "day_ok a b \<Longrightarrow> shape [a, b] = ''99'' \<or> shape [a, b] = '' 9''"
  using day_ok_digits [of a b] digits_isdigit not_digit
  by (auto simp: shape_def simp del: set_simps)


text \<open>A text of ten characters that \<open>strptime\<close> accepts has one of two shapes.\<close>

lemma strptime_shape:
  assumes "strptime s = Inr dt" "length s = 10"
  shows "\<exists>ys ms ds. s = ys @ ''-'' @ ms @ ''-'' @ ds \<and> shape ys = ''9999'' \<and> length ys = 4
     \<and> shape ms = ''99'' \<and> length ms = 2 \<and> (shape ds = ''99'' \<or> shape ds = '' 9'')"
proof -
  from strptime_Inr [OF assms(1)] obtain ys ms ds where
    s: "s = ys @ ''-'' @ ms @ ''-'' @ ds" and ys: "length ys = 4" "list_all isdigit ys"
    and ms: "(\<exists>a b. ms = [a, b] \<and> month_ok a b) \<or> (\<exists>a. ms = [a] \<and> a \<in> set ''123456789'')"
    and ds: "(\<exists>a b. ds = [a, b] \<and> day_ok a b) \<or> (\<exists>a. ds = [a] \<and> a \<in> set ''123456789'')"
    by blast
  from ms have lm: "length ms \<le> 2" by (auto simp del: set_simps)
  from ds have ld: "length ds \<le> 2" by (auto simp del: set_simps)
  from s assms(2) ys(1) have "length ms + length ds = 4" by simp
  with lm ld have l2: "length ms = 2" "length ds = 2" by simp_all
  with ms obtain a b where m2: "ms = [a, b]" "month_ok a b" by (auto simp del: set_simps)
  from l2 ds obtain c d where d2: "ds = [c, d]" "day_ok c d" by (auto simp del: set_simps)
  from m2 have "shape ms = ''99''" by (simp add: month_ok_shape)
  moreover from d2 have "shape ds = ''99'' \<or> shape ds = '' 9''" by (simp add: day_ok_shape)
  moreover from ys have "shape ys = ''9999''" by (rule shape_digits4)
  ultimately show ?thesis using s ys(1) l2(1) by blast
qed



lemma catch_Some: "catch_ValueError r = Inr (Some dt) \<Longrightarrow> r = Inr dt"
  by (cases r) (auto simp: catch_ValueError_def split: if_splits)

lemma parse_Some_shape:
  assumes "parse_spotify_date s = Inr (Some dt)"
  shows "shape (strip s) \<in> {''9999-99-99'', ''9999-99- 9'', ''9999-99'', ''9999''}"
proof -
  let ?t = "strip s"
  have nu: "?t \<noteq> ''Unknown''"
  proof
    assume "?t = ''Unknown''"
    then have "parse_spotify_date s = Inr None" by (rule parse_unknown)
    with assms show False by simp
  qed
  consider (a) "length ?t = 10" | (b) "length ?t = 7" | (c) "length ?t = 4"
    | (d) "length ?t \<notin> {4, 7, 10}" by blast
  then show ?thesis
  proof cases
    case a
    with nu have "parse_spotify_date s = catch_ValueError (strptime ?t)"
      by (simp add: parse_spotify_date_def)
    with assms have "strptime ?t = Inr dt" by (simp add: catch_Some)
    from strptime_shape [OF this a] obtain ys ms ds where
      t: "?t = ys @ ''-'' @ ms @ ''-'' @ ds" and sh: "shape ys = ''9999''" "shape ms = ''99''"
      and ds: "shape ds = ''99'' \<or> shape ds = '' 9''"
      by blast
    have "shape ?t = ''9999'' @ ''-'' @ ''99'' @ ''-'' @ shape ds"
      unfolding t by (simp add: shape_append shape_dash sh)
    with ds have "shape ?t = ''9999-99-99'' \<or> shape ?t = ''9999-99- 9''" by auto
    then show ?thesis by blast
  next
    case b
    with nu have "parse_spotify_date s = catch_ValueError (strptime (?t @ ''-01''))"
      by (simp add: parse_spotify_date_def)
    with assms have st: "strptime (?t @ ''-01'') = Inr dt" by (simp add: catch_Some)
    have "length (?t @ ''-01'') = 10" using b by simp
    from strptime_shape [OF st this] obtain ys ms ds where
      e: "?t @ ''-01'' = ys @ ''-'' @ ms @ ''-'' @ ds" and sh: "shape ys = ''9999''" "shape ms = ''99''"
      and l: "length ys = 4" "length ms = 2"
      by blast
    from e have "?t @ ''-01'' = (ys @ ''-'' @ ms) @ (''-'' @ ds)" by simp
    moreover have "length ?t = length (ys @ ''-'' @ ms)" using b l by simp
    ultimately have t: "?t = ys @ ''-'' @ ms" by (metis append_eq_append_conv)
    have "shape ?t = ''9999-99''"
      unfolding t by (simp add: shape_append shape_dash sh)
    then show ?thesis by blast
  next
    case c
    with nu have "parse_spotify_date s = catch_ValueError (strptime (?t @ ''-01-01''))"
      by (simp add: parse_spotify_date_def)
    with assms have st: "strptime (?t @ ''-01-01'') = Inr dt" by (simp add: catch_Some)
    have "length (?t @ ''-01-01'') = 10" using c by simp
    from strptime_shape [OF st this] obtain ys ms ds where
      e: "?t @ ''-01-01'' = ys @ ''-'' @ ms @ ''-'' @ ds" and sh: "shape ys = ''9999''"
      and l: "length ys = 4"
      by blast
    from e have "?t @ ''-01-01'' = ys @ (''-'' @ ms @ ''-'' @ ds)" by simp
    moreover have "length ?t = length ys" using c l by simp
    ultimately have "?t = ys" by (metis append_eq_append_conv)
    with sh have "shape ?t = ''9999''" by simp
    then show ?thesis by blast
  next
    case d
    then have "parse_spotify_date s = Inr None" by (rule parse_other)
    with assms show ?thesis by simp
  qed
qed

lemma parse_other_shape:
  assumes "shape (strip s) \<notin> {''9999-99-99'', ''9999-99- 9'', ''9999-99'', ''9999''}"
  shows "parse_spotify_date s = Inr None"
proof -
  from parse_spotify_date_total [of s] obtain r where r: "parse_spotify_date s = Inr r" by blast
  show ?thesis
  proof (cases r)
    case None
    with r show ?thesis by simp
  next
    case (Some dt)
    with r parse_Some_shape [of s dt] assms show ?thesis by blast
  qed
qed




section \<open>Facts about the selection\<close>

lemma track_loop_Cons:
  "track_loop name c found (t # ts) =
     track_loop name c
       (if accepts name c t \<and> \<not> already_found found t then found @ [t] else found) ts"
  by (simp add: is_recent_release_total accepts_def)

lemma already_found_iff: "already_found found t \<longleftrightarrow> track_id t \<in> track_id ` set found"
  unfolding already_found_def list_ex_iff image_iff by metis

text \<open>The loop never raises; it appends to the tracks found a subsequence of its input, of
  accepted tracks only, and it keeps the ids distinct.\<close>

lemma track_loop_result:
  "\<exists>new. track_loop name c found ts = Inr (found @ new) \<and> subseq new ts
     \<and> (\<forall>t \<in> set new. accepts name c t)
     \<and> (distinct (map track_id found) \<longrightarrow> distinct (map track_id (found @ new)))"
proof (induction ts arbitrary: found)
  case Nil
  show ?case by simp
next
  case (Cons t ts)
  show ?case
  proof (cases "accepts name c t \<and> \<not> already_found found t")
    case True
    from Cons.IH [of "found @ [t]"] obtain new where
      n: "track_loop name c (found @ [t]) ts = Inr ((found @ [t]) @ new)" "subseq new ts"
         "\<forall>t \<in> set new. accepts name c t"
         "distinct (map track_id (found @ [t])) \<longrightarrow> distinct (map track_id ((found @ [t]) @ new))"
      by blast
    have "track_loop name c found (t # ts) = Inr (found @ (t # new))"
      using True n(1) by (simp only: track_loop_Cons) simp
    moreover have "subseq (t # new) (t # ts)" using n(2) by simp
    moreover have "\<forall>u \<in> set (t # new). accepts name c u" using True n(3) by simp
    moreover have
      "distinct (map track_id found) \<longrightarrow> distinct (map track_id (found @ (t # new)))"
      using True n(4) by (auto simp: already_found_iff)
    ultimately show ?thesis by blast
  next
    case False
    from Cons.IH [of found] obtain new where
      n: "track_loop name c found ts = Inr (found @ new)" "subseq new ts"
         "\<forall>t \<in> set new. accepts name c t"
         "distinct (map track_id found) \<longrightarrow> distinct (map track_id (found @ new))"
      by blast
    have "track_loop name c found (t # ts) = Inr (found @ new)"
      using False n(1) by (simp only: track_loop_Cons) auto
    moreover have "subseq new (t # ts)" using n(2) by (rule list_emb_Cons)
    ultimately show ?thesis using n(3,4) by blast
  qed
qed

lemma track_loop_append:
  "track_loop name c found (xs @ ys) =
     (case track_loop name c found xs of Inl e \<Rightarrow> Inl e | Inr f \<Rightarrow> track_loop name c f ys)"
proof (induction xs arbitrary: found)
  case Nil
  show ?case by simp
next
  case (Cons t xs)
  show ?case by (simp only: track_loop_Cons append_Cons Cons.IH)
qed

lemma track_loop_keep_all:
  "\<forall>t \<in> set ts. accepts name c t \<Longrightarrow> distinct (map track_id (found @ ts))
     \<Longrightarrow> track_loop name c found ts = Inr (found @ ts)"
proof (induction ts arbitrary: found)
  case Nil
  show ?case by simp
next
  case (Cons t ts)
  have nf: "\<not> already_found found t" using Cons.prems(2) by (auto simp: already_found_iff)
  have "track_loop name c (found @ [t]) ts = Inr ((found @ [t]) @ ts)"
    using Cons.prems by (intro Cons.IH) auto
  then show ?case using nf Cons.prems(1) by (simp only: track_loop_Cons) simp
qed

lemma track_loop_filter:
  "track_loop name c found cands = track_loop name c found (filter (artist_matches name) cands)"
proof (induction cands arbitrary: found)
  case Nil
  show ?case by simp
next
  case (Cons t ts)
  show ?case
  proof (cases "artist_matches name t")
    case True
    then show ?thesis
      by (simp only: filter.simps if_True track_loop_Cons Cons.IH [symmetric])
  next
    case False
    then have "track_loop name c found (t # ts) = track_loop name c found ts" by simp
    with False Cons.IH [of found] show ?thesis by simp
  qed
qed

lemma select_for_artist_result:
  "\<exists>found. track_loop name c [] cands = Inr found
      \<and> select_for_artist name c cands = Inr (take 3 found)
      \<and> subseq found cands \<and> (\<forall>t \<in> set found. accepts name c t)
      \<and> distinct (map track_id found)"
  using track_loop_result [of name c "[]" cands] by (auto simp: select_for_artist_def)

lemma response_tracks_simps:
  "response_tracks NoResult = []" "response_tracks Malformed = []"
  "response_tracks (Result stext) = extract_track_info_with_dates stext"
  by (simp_all add: response_tracks_def)

lemma send_mcp_request_cases:
  obtains resp w1 where "send_mcp_request w rid req = (resp, w1)"
    and "stdout w1 = tl (stdout w)"
    and "resp = (case stdout w of [] \<Rightarrow> NoResult | r # rest \<Rightarrow> r)"
  by (cases "stdout w") (simp_all add: send_mcp_request_def)

text \<open>The loop over the queries raises when one of the responses that it reads is malformed;
  otherwise it is the loop over the tracks, run on the candidates of all responses.\<close>

lemma query_loop_found:
  "found_of (query_loop name c qs (found, rid, w)) =
     (if Malformed \<in> set (take (length qs) (stdout w)) then Inl LookupError
      else track_loop name c found
             (concat (map response_tracks (take (length qs) (stdout w)))))"
proof (induction qs arbitrary: found rid w)
  case Nil
  show ?case by (simp add: found_of_def)
next
  case (Cons q qs)
  obtain resp w1 where snd: "send_mcp_request w rid (SearchSpotify q) = (resp, w1)"
    and w1: "stdout w1 = tl (stdout w)"
    and resp: "resp = (case stdout w of [] \<Rightarrow> NoResult | r # rest \<Rightarrow> r)"
    by (rule send_mcp_request_cases)
  have len: "length (q # qs) = Suc (length qs)" by simp
  show ?case
  proof (cases resp)
    case NoResult
    with snd have ql: "query_loop name c (q # qs) (found, rid, w)
        = query_loop name c qs (found, rid + 1, w1)"
      by simp
    have "Malformed \<in> set (take (Suc (length qs)) (stdout w))
        \<longleftrightarrow> Malformed \<in> set (take (length qs) (stdout w1))"
      using resp NoResult w1 by (cases "stdout w") auto
    moreover have "concat (map response_tracks (take (Suc (length qs)) (stdout w)))
        = concat (map response_tracks (take (length qs) (stdout w1)))"
      using resp NoResult w1 by (cases "stdout w") (auto simp: response_tracks_simps)
    ultimately show ?thesis
      unfolding ql len Cons.IH by simp
  next
    case Malformed
    with resp obtain rest where sw: "stdout w = Malformed # rest"
      by (cases "stdout w") auto
    from snd Malformed have "query_loop name c (q # qs) (found, rid, w) = Inl LookupError"
      by simp
    then show ?thesis using sw by (simp add: found_of_def)
  next
    case (Result stext)
    with resp obtain rest where sw: "stdout w = Result stext # rest"
      by (cases "stdout w") auto
    from track_loop_result [of name c found "extract_track_info_with_dates stext"]
    obtain f1 where f1: "track_loop name c found (extract_track_info_with_dates stext) = Inr f1"
      by blast
    with snd Result
    have ql: "query_loop name c (q # qs) (found, rid, w) = query_loop name c qs (f1, rid + 1, w1)"
      by simp
    have r: "stdout w1 = rest" using w1 sw by simp
    show ?thesis
      unfolding ql len Cons.IH r sw
      by (simp add: response_tracks_simps track_loop_append f1)
  qed
qed

lemma returned_tracks_eq:
  "returned_tracks w rid name =
     (case cutoff_read w of
        Inl e \<Rightarrow> Inl e
      | Inr c \<Rightarrow> if Malformed \<in> set (take 3 (stdout w)) then Inl LookupError
                 else select_for_artist name c (candidates w))"
proof (cases "get_cutoff_date w")
  case (Inl e)
  then show ?thesis
    by (simp add: returned_tracks_def search_artist_tracks_def cutoff_read_def)
next
  case (Inr p)
  obtain c w1 where p: "p = (c, w1)" by (cases p)
  have w1: "stdout w1 = stdout w"
    using Inr p by (auto simp: get_cutoff_date_def datetime_now_def split: sum.splits)
  have l: "length (search_queries name) = 3" by (simp add: search_queries_def)
  have "returned_tracks w rid name =
      map_sum id (take 3) (found_of (query_loop name c (search_queries name) ([], rid, w1)))"
    using Inr p
    by (simp add: returned_tracks_def search_artist_tracks_def found_of_def split: sum.splits)
  also have "\<dots> = (if Malformed \<in> set (take 3 (stdout w)) then Inl LookupError
                 else select_for_artist name c (candidates w))"
    unfolding query_loop_found l w1
    by (simp add: select_for_artist_def candidates_def split: sum.splits)
  finally show ?thesis using Inr p by (simp add: cutoff_read_def)
qed

lemma returned_tracks_select:
  "returned_tracks w rid name = Inr tracks \<Longrightarrow>
     \<exists>c. cutoff_read w = Inr c \<and> select_for_artist name c (candidates w) = Inr tracks"
  unfolding returned_tracks_eq by (auto split: sum.splits if_splits)

lemma returned_tracks_distinct:
  assumes "returned_tracks w rid name = Inr tracks"
  shows "distinct (map track_id tracks)"
proof -
  from returned_tracks_select [OF assms] obtain c where
    "select_for_artist name c (candidates w) = Inr tracks" by blast
  with select_for_artist_result [of name c "candidates w"] obtain found where
    "tracks = take 3 found" "distinct (map track_id found)" by auto
  then show ?thesis by (simp add: take_map [symmetric])
qed

lemma returned_tracks_length: "returned_tracks w rid name = Inr tracks \<Longrightarrow> length tracks \<le> 3"
  by (auto simp: returned_tracks_def search_artist_tracks_def split: sum.splits prod.splits)

text \<open>The loop over the artists appends one block of ids for each artist; each block has
  at most 3 ids and no duplicate.\<close>

lemma artist_loop_blocks:
  "artist_loop names (all_tracks, ids, rid, w) = Inr (all_tracks', ids', rid', w') \<Longrightarrow>
     \<exists>parts. ids' = ids @ concat parts \<and> length parts = length names
       \<and> (\<forall>p \<in> set parts. distinct p \<and> length p \<le> 3)"
proof (induction names arbitrary: all_tracks ids rid w)
  case Nil
  then show ?case by simp
next
  case (Cons name names)
  from Cons.prems obtain tracks rid1 w1 where
    s: "search_artist_tracks w rid name = Inr ((tracks, rid1), w1)" and
    l: "artist_loop names (all_tracks @ tracks, ids @ map track_id tracks, rid1, w1)
          = Inr (all_tracks', ids', rid', w')"
    by (auto split: sum.splits prod.splits)
  from s have r: "returned_tracks w rid name = Inr tracks" by (simp add: returned_tracks_def)
  from Cons.IH [OF l] obtain parts where
    p: "ids' = (ids @ map track_id tracks) @ concat parts" "length parts = length names"
       "\<forall>p \<in> set parts. distinct p \<and> length p \<le> 3"
    by blast
  let ?parts = "map track_id tracks # parts"
  have "ids' = ids @ concat ?parts" using p(1) by simp
  moreover have "length ?parts = length (name # names)" using p(2) by simp
  moreover have "\<forall>q \<in> set ?parts. distinct q \<and> length q \<le> 3"
    using p(3) returned_tracks_distinct [OF r] returned_tracks_length [OF r] by simp
  ultimately show ?case by blast
qed

section \<open>Facts about the pattern of a track line\<close>

lemma id_tail_bind:
  assumes "x \<in> set (List.bind (m s) (case_prod f))" "sound m"
    and "\<And>a r'. x \<in> set (f a r') \<Longrightarrow> id_tail r' r"
  shows "id_tail s r"
proof -
  from assms(1) obtain a r' where m: "(a, r') \<in> set (m s)" and x: "x \<in> set (f a r')"
    by (auto simp: List.bind_def)
  from soundD [OF assms(2) m] have s: "s = a @ r'" .
  from assms(3) [OF x] obtain p ws where "r' = p @ ''ID:'' @ ws @ r" "list_all isspace ws"
    unfolding id_tail_def by blast
  with s have "s = (a @ p) @ ''ID:'' @ ws @ r \<and> list_all isspace ws" by simp
  then show ?thesis unfolding id_tail_def by blast
qed

lemma id_tail_last:
  assumes "(g, r) \<in> set (List.bind (lit ''ID:'' s)
      (case_prod (\<lambda>u r1. List.bind (greedy 0 isspace r1) (case_prod (\<lambda>v r2. [(g', r2)])))))"
  shows "id_tail s r"
proof -
  from assms obtain a r1 ws where l: "(a, r1) \<in> set (lit ''ID:'' s)"
    and g: "(ws, r) \<in> set (greedy 0 isspace r1)"
    by (auto simp: List.bind_def)
  from l have "s = ''ID:'' @ r1" using soundD [OF sound_lit l] lit_result [OF l] by simp
  moreover from greedy_result [OF g] have "r1 = ws @ r" "list_all isspace ws" by simp_all
  ultimately have "s = [] @ ''ID:'' @ ws @ r \<and> list_all isspace ws" by simp
  then show ?thesis unfolding id_tail_def by blast
qed

text \<open>Every match of the head of the pattern ends with \<open>ID:\<close> and whitespace.\<close>

lemma track_head_id_tail:
  "((g1, g2, g3), r) \<in> set (track_head line) \<Longrightarrow> id_tail line r"
  unfolding track_head_def
  apply (erule id_tail_last | (erule id_tail_bind, rule sound_greedy sound_lit sound_date_group))+
  done

lemma track_re_first:
  assumes "track_re line = ((g1, g2, g3, g4), r') # rest"
  shows "\<exists>r. id_tail line r \<and> g4 = takeWhile isalnum r \<and> r' = dropWhile isalnum r \<and> g4 \<noteq> []"
proof -
  from bind_first [OF assms [unfolded track_re_def]] obtain h r zs where
    h: "(h, r) \<in> set (track_head line)" and
    b: "(case h of (g1, g2, g3) \<Rightarrow>
           List.bind (greedy 1 isalnum r) (\<lambda>(g4, r). [((g1, g2, g3, g4), r)]))
          = ((g1, g2, g3, g4), r') # zs"
    by (auto split: prod.splits)
  obtain h1 h2 h3 where hh: "h = (h1, h2, h3)" by (cases h) auto
  from b hh have b': "List.bind (greedy 1 isalnum r) (\<lambda>(g4, r). [((h1, h2, h3, g4), r)])
          = ((g1, g2, g3, g4), r') # zs" by simp
  then obtain x xs where gx: "greedy 1 isalnum r = x # xs"
    by (cases "greedy 1 isalnum r") auto
  from greedy_first [OF gx] have x: "x = (takeWhile isalnum r, dropWhile isalnum r)"
    and n: "1 \<le> length (takeWhile isalnum r)" by simp_all
  from b' gx x have "g4 = takeWhile isalnum r" "r' = dropWhile isalnum r" by simp_all
  moreover have "id_tail line r" using h hh track_head_id_tail by blast
  moreover have "takeWhile isalnum r \<noteq> []" using n by auto
  ultimately show ?thesis by blast
qed

lemma strip_alnum:
  assumes "g \<noteq> []" "list_all isalnum g"
  shows "strip g = g"
proof -
  have "hd g \<in> set g" "last g \<in> set g" using assms(1) by simp_all
  with assms(2) have "\<not> isspace (hd g)" "\<not> isspace (last g)"
    by (auto simp: list_all_iff isalnum_not_isspace)
  with assms(1) show ?thesis by (rule strip_same)
qed

lemma track_of_line_id:
  assumes "track_of_line line = [t]"
  shows "\<exists>pre ws rest. line = pre @ ''ID:'' @ ws @ track_id t @ rest \<and> list_all isspace ws
     \<and> track_id t \<noteq> [] \<and> list_all isalnum (track_id t) \<and> (rest = [] \<or> \<not> isalnum (hd rest))"
proof -
  from assms obtain g1 g2 g3 g4 where s: "track_search line = Some (g1, g2, g3, g4)"
    and t: "track_id t = strip g4"
    by (auto simp: track_of_line_def split: option.splits)
  from s obtain r' rest where "track_re line = ((g1, g2, g3, g4), r') # rest"
    by (auto simp: track_search_def split: list.splits)
  from track_re_first [OF this] obtain r where
    r: "id_tail line r" "g4 = takeWhile isalnum r" "r' = dropWhile isalnum r" "g4 \<noteq> []"
    by blast
  have all: "list_all isalnum g4" using r(2) by (auto simp: list_all_iff dest: set_takeWhileD)
  with r(4) have "strip g4 = g4" by (rule strip_alnum)
  with t have id: "track_id t = g4" by simp
  from r(1) obtain p ws where l: "line = p @ ''ID:'' @ ws @ r" "list_all isspace ws"
    unfolding id_tail_def by blast
  have "r = g4 @ r'" using r(2,3) by simp
  with l have "line = p @ ''ID:'' @ ws @ track_id t @ r'" using id by simp
  moreover have "r' = [] \<or> \<not> isalnum (hd r')"
    using r(3) hd_dropWhile [of isalnum r] by auto
  ultimately show ?thesis using l(2) id r(4) all by blast
qed

text \<open>When the head of the pattern matches and an alphanumeric character follows, the line
  gives a track, whatever comes after the run of alphanumeric characters.\<close>

lemma track_of_line_head:
  assumes h: "track_head line = ((g1, g2, g3), r) # hs" and r: "r \<noteq> []" "isalnum (hd r)"
  shows "track_of_line line =
     [\<lparr>title = strip g1, artist = strip g2, release_date = strip g3,
       track_id = takeWhile isalnum r\<rparr>]"
proof -
  from r have tw: "takeWhile isalnum r \<noteq> []" by (cases r) auto
  then have "1 \<le> length (takeWhile isalnum r)" by (cases "takeWhile isalnum r") auto
  from greedy_nonempty [OF this] obtain xs where
    g: "greedy 1 isalnum r = (takeWhile isalnum r, dropWhile isalnum r) # xs" by blast
  have "\<exists>zs. track_re line = ((g1, g2, g3, takeWhile isalnum r), dropWhile isalnum r) # zs"
    unfolding track_re_def h using g by simp
  then have "track_search line = Some (g1, g2, g3, takeWhile isalnum r)"
    by (auto simp: track_search_def)
  moreover have "list_all isalnum (takeWhile isalnum r)"
    by (auto simp: list_all_iff dest: set_takeWhileD)
  with tw have "strip (takeWhile isalnum r) = takeWhile isalnum r" by (rule strip_alnum)
  ultimately show ?thesis by (simp add: track_of_line_def)
qed

lemma two_step: "exactly 2 isdigit (two_digits m @ rest) = [(two_digits m, rest)]"
  by (simp add: exactly_def two_digits_def digit_char_props)

text \<open>The date group of the pattern takes any token of four, two and two digits, whether
  it is a date of the calendar or not.\<close>

lemma date_group_digits:
  "\<exists>ms. date_group (four_digits y @ ''-'' @ two_digits m @ ''-'' @ two_digits d @ rest)
     = (four_digits y @ ''-'' @ two_digits m @ ''-'' @ two_digits d, rest) # ms"
proof -
  have "seq (exactly 4 isdigit) (seq (lit ''-'') (seq (exactly 2 isdigit)
            (seq (lit ''-'') (exactly 2 isdigit))))
          (four_digits y @ ''-'' @ two_digits m @ ''-'' @ two_digits d @ rest)
        = [(four_digits y @ ''-'' @ two_digits m @ ''-'' @ two_digits d, rest)]"
    by (simp add: seq_def year_step two_step lit1_Cons)
  then show ?thesis by (simp add: date_group_def alt_def)
qed


lemma fm_greedy:
  assumes "list_all P a" "lo \<le> length a" "r = [] \<or> \<not> P (hd r)"
  shows "\<exists>ms. greedy lo P (a @ r) = (a, r) # ms"
proof -
  have t: "takeWhile P (a @ r) = a" "dropWhile P (a @ r) = r"
    using assms(1,3) by (cases r; simp add: list_all_iff)+
  from greedy_nonempty [of lo P "a @ r"] assms(2) show ?thesis by (simp add: t)
qed

lemma fm_greedy0:
  assumes "r = [] \<or> \<not> P (hd r)"
  shows "\<exists>ms. greedy 0 P r = ([], r) # ms"
  using fm_greedy [of P "[]" 0 r] assms by simp

lemma fm_lit: "\<exists>ms. lit p (p @ r) = (p, r) # ms"
  by (simp add: lit_def)

lemma fm_bind:
  assumes "\<exists>ms. m = (a, r) # ms" "\<exists>zs. f a r = y # zs"
  shows "\<exists>zs. List.bind m (case_prod f) = y # zs"
  using assms by auto

lemma fm_return: "\<exists>zs. [x] = x # zs"
  by simp

lemma char_facts:
  "\<not> isdigit (CHR ''.'')" "\<not> isspace dquote" "\<not> isspace (CHR ''b'')" "\<not> isspace (CHR ''('')"
  "\<not> isspace (CHR ''-'')" "\<not> isspace (CHR ''R'')" "\<not> isspace (CHR ''I'')"
  "isspace (CHR '' '')"
  by code_simp+

lemma track_head_line:
  assumes n: "n \<noteq> []" "list_all isdigit n"
    and ti: "ti \<noteq> []" "dquote \<notin> set ti"
    and ar: "ar \<noteq> []" "CHR ''('' \<notin> set ar" "\<not> isspace (hd ar)"
    and du: "du \<noteq> []" "CHR '')'' \<notin> set du"
    and tid: "tid \<noteq> []" "\<not> isspace (hd tid)"
  shows "\<exists>zs. track_head
      (search_line n ti ar du (four_digits y @ ''-'' @ two_digits m @ ''-'' @ two_digits d) tid)
     = ((ti, ar @ '' '', four_digits y @ ''-'' @ two_digits m @ ''-'' @ two_digits d), tid) # zs"
proof -
  let ?tok = "four_digits y @ ''-'' @ two_digits m @ ''-'' @ two_digits d"
  have split: "search_line n ti ar du ?tok tid =
      n @ ''.'' @ '' '' @ [dquote] @ ti @ [dquote] @ '' '' @ ''by'' @ '' '' @ (ar @ '' '')
        @ ''('' @ du @ '')'' @ '' '' @ ''-'' @ '' '' @ ''Released:'' @ '' ''
        @ (four_digits y @ ''-'' @ two_digits m @ ''-'' @ two_digits d @ ('' '' @ ''-'' @ '' '' @ ''ID:'' @ '' '' @ tid))"
    by (simp add: search_line_def)
  have sp: "list_all isspace '' ''" by (simp add: char_facts)
  have l1: "list_all (\<lambda>c. c \<noteq> dquote) ti" using ti(2) by (auto simp: list_all_iff)
  have l2: "list_all (\<lambda>c. c \<noteq> CHR ''('') (ar @ '' '')" using ar(2) by (auto simp: list_all_iff)
  have l3: "list_all (\<lambda>c. c \<noteq> CHR '')'') du" using du(2) by (auto simp: list_all_iff)
  have len: "1 \<le> length n" "1 \<le> length ti" "1 \<le> length (ar @ '' '')" "1 \<le> length du"
    using n(1) ti(1) du(1) by (simp_all add: Suc_le_eq)
  have har: "\<not> isspace (hd (ar @ rest))" for rest using ar(1,3) by simp
  have htid: "\<not> isspace (hd tid)" by (rule tid(2))
  show ?thesis
    unfolding split track_head_def
    apply (rule fm_bind, rule fm_greedy [OF n(2) len(1)], simp add: char_facts)
    apply (rule fm_bind, rule fm_lit)
    apply (rule fm_bind, rule fm_greedy [OF sp], simp, simp add: char_facts)
    apply (rule fm_bind, rule fm_lit)
    apply (rule fm_bind, rule fm_greedy [OF l1 len(2)], simp)
    apply (rule fm_bind, rule fm_lit)
    apply (rule fm_bind, rule fm_greedy [OF sp], simp, simp add: char_facts)
    apply (rule fm_bind, rule fm_lit)
    apply (rule fm_bind, rule fm_greedy [OF sp], simp, simp add: har)
    apply (rule fm_bind, rule fm_greedy [OF l2 len(3)], simp)
    apply (rule fm_bind, rule fm_greedy0, simp add: char_facts)
    apply (rule fm_bind, rule fm_lit)
    apply (rule fm_bind, rule fm_greedy [OF l3 len(4)], simp)
    apply (rule fm_bind, rule fm_lit)
    apply (rule fm_bind, rule fm_greedy [OF sp], simp, simp add: char_facts)
    apply (rule fm_bind, rule fm_lit)
    apply (rule fm_bind, rule fm_greedy [OF sp], simp, simp add: char_facts)
    apply (rule fm_bind, rule fm_lit)
    apply (rule fm_bind, rule fm_greedy [OF sp], simp, simp add: four_digits_def digit_char_props)
    apply (rule fm_bind, rule date_group_digits)
    apply (rule fm_bind, rule fm_greedy [OF sp], simp, simp add: char_facts)
    apply (rule fm_bind, rule fm_lit)
    apply (rule fm_bind, rule fm_greedy [OF sp], simp, simp add: char_facts)
    apply (rule fm_bind, rule fm_lit)
    apply (rule fm_bind, rule fm_greedy [OF sp], simp, simp add: htid)
    apply (rule fm_return)
    done
qed


lemma strip_space:
  assumes "ar \<noteq> []" "\<not> isspace (hd ar)"
  shows "strip (ar @ '' '') = strip ar"
proof -
  have sp: "isspace (CHR '' '')" by (rule char_facts)
  have "dropWhile isspace (ar @ '' '') = ar @ '' ''" "dropWhile isspace ar = ar"
    using assms by (cases ar; simp)+
  then show ?thesis by (simp add: strip_def sp)
qed

text \<open>A line in the format of the server, with any token of four, two and two digits as its
  date, gives a track with that token as its release date; the id is the run of letters and
  digits at the start of the id token.\<close>

lemma track_of_line_wellformed:
  assumes "wellformed_fields n ti ar du tid"
  shows "track_of_line
      (search_line n ti ar du (four_digits y @ ''-'' @ two_digits m @ ''-'' @ two_digits d) tid)
     = [\<lparr>title = strip ti, artist = strip ar,
         release_date = four_digits y @ ''-'' @ two_digits m @ ''-'' @ two_digits d,
         track_id = takeWhile isalnum tid\<rparr>]"
proof -
  from assms have f: "n \<noteq> []" "list_all isdigit n" "ti \<noteq> []" "dquote \<notin> set ti"
    "ar \<noteq> []" "CHR ''('' \<notin> set ar" "\<not> isspace (hd ar)" "du \<noteq> []" "CHR '')'' \<notin> set du"
    "tid \<noteq> []" "isalnum (hd tid)"
    by (simp_all add: wellformed_fields_def)
  from f(11) have "\<not> isspace (hd tid)" by (rule isalnum_not_isspace)
  from track_head_line [OF f(1-10) this, of y m d] obtain zs where
    "track_head
       (search_line n ti ar du (four_digits y @ ''-'' @ two_digits m @ ''-'' @ two_digits d) tid)
     = ((ti, ar @ '' '', four_digits y @ ''-'' @ two_digits m @ ''-'' @ two_digits d), tid) # zs"
    by blast
  from track_of_line_head [OF this f(10,11)] show ?thesis
    by (simp only: strip_space [OF f(5,7)] strip_iso)
qed

lemma sublist_map_iff:
  "sublist (map f q) (map f a)
     \<longleftrightarrow> (\<exists>pre mid post. a = pre @ mid @ post \<and> map f mid = map f q)"
proof
  assume "sublist (map f q) (map f a)"
  then obtain ps ss where "map f a = ps @ map f q @ ss" by (auto simp: sublist_def)
  then have "\<exists>us vs. a = us @ vs \<and> map f vs = map f q @ ss"
    by (metis map_eq_append_conv)
  then obtain us vs where a: "a = us @ vs" and "map f vs = map f q @ ss" by blast
  then have "\<exists>mid post. vs = mid @ post \<and> map f mid = map f q"
    by (metis map_eq_append_conv)
  then obtain mid post where "vs = mid @ post" "map f mid = map f q" by blast
  with a show "\<exists>pre mid post. a = pre @ mid @ post \<and> map f mid = map f q" by blast
next
  assume "\<exists>pre mid post. a = pre @ mid @ post \<and> map f mid = map f q"
  then obtain pre mid post where "a = pre @ mid @ post" "map f mid = map f q" by blast
  then have "map f a = map f pre @ map f q @ map f post" by simp
  then show "sublist (map f q) (map f a)" unfolding sublist_def by blast
qed

lemma artist_matches_iff: "artist_matches name t \<longleftrightarrow> occurs_ci name (artist t)"
  unfolding artist_matches_def occurs_ci_def lower_def by (rule sublist_map_iff)

lemma future_example: "sublist (lower ''Future'') (lower ''Metro Boomin, Future'')"
  by code_simp

lemma extract_lines_set:
  "set (extract_lines tracks ls) = set tracks \<union> (\<Union>l \<in> set ls. set (track_of_line l))"
  by (induction ls arbitrary: tracks) auto

lemma unknown_never_selected:
  assumes "parse_spotify_date (release_date t) = Inr None"
  shows "is_recent_release (release_date t) c = Inr False"
    and "select_for_artist name c cands = Inr sel \<Longrightarrow> t \<notin> set sel"
proof -
  show f: "is_recent_release (release_date t) c = Inr False"
    using assms by (simp add: is_recent_release_def)
  assume "select_for_artist name c cands = Inr sel"
  with select_for_artist_result [of name c cands] obtain found where
    "sel = take 3 found" "\<forall>u \<in> set found. accepts name c u" by auto
  then have "\<forall>u \<in> set sel. accepts name c u" by (auto dest: in_set_takeD)
  moreover have "\<not> accepts name c t" using f by (simp add: accepts_def recent_def)
  ultimately show "t \<notin> set sel" by blast
qed

section \<open>The examples, evaluated\<close>

lemma ex_returned: "returned_tracks ex_world 1 ''Future'' = Inr ex_selection"
  by code_simp

lemma ex_returned2: "returned_tracks ex_world2 7 ''Future'' = Inr ex_selection"
  by code_simp

lemma ex_candidates_eq: "candidates ex_world = ex_candidates"
  by code_simp

lemma ex_select: "select_for_artist ''Future'' ex_cutoff ex_candidates = Inr ex_selection"
  by code_simp

lemma ex_cutoff_reads: "cutoff_read ex_world = Inr ex_cutoff" "cutoff_read ex_world2 = Inr ex_cutoff"
  by code_simp+

lemma ex_same_responses:
  "take 3 (stdout ex_world) = take 3 (stdout ex_world2)" "candidates ex_world = candidates ex_world2"
  by (simp_all add: candidates_def ex_world_def ex_world2_def)

lemma ex_run_ids: "track_ids_to_add ex_run 3 FAVORITE_ARTISTS = Inr [''abc123'', ''abc123'']"
  by code_simp

lemma ex_run_request:
  "last_request (add_recent_tracks ex_run 3 ''pl1'' FAVORITE_ARTISTS)
     = Inr (AddTracksToPlaylist ''pl1'' [''abc123'', ''abc123''])"
  by code_simp

lemma ex_hyphen_head:
  "track_head ex_hyphen_line =
     [((''Good Vibes'', ''Future '', ''2025-01-01''), ''abc-123''),
      ((''Good Vibes'', ''Future '', ''2025-01-01''), '' abc-123''),
      ((''Good Vibes'', ''Future'', ''2025-01-01''), ''abc-123''),
      ((''Good Vibes'', ''Future'', ''2025-01-01''), '' abc-123'')]"
  by code_simp

section \<open>The claims\<close>

text \<open>
  C1, as amended. The ids of the tracks that one call of \<open>search_artist_tracks\<close> returns are
  pairwise distinct. The list of ids that a run collects is the concatenation of one block
  for each artist, each block with at most 3 ids and without a duplicate; so a run over a
  single artist collects a list without duplicates. (The blocks of two artists are appended
  as they are, with no test of the ids.)
\<close>

theorem per_artist_ids_distinct:
  "(returned_tracks w rid name = Inr tracks \<longrightarrow> distinct (map track_id tracks))
   \<and> (track_ids_to_add w rid artists = Inr ids \<longrightarrow>
        (\<exists>parts. ids = concat parts \<and> length parts = length artists
           \<and> (\<forall>p \<in> set parts. distinct p \<and> length p \<le> 3)))
   \<and> (track_ids_to_add w rid [name] = Inr ids \<longrightarrow> distinct ids)"
proof -
  have blocks: "\<exists>parts. xs = concat parts \<and> length parts = length names
           \<and> (\<forall>p \<in> set parts. distinct p \<and> length p \<le> 3)"
    if "track_ids_to_add w rid names = Inr xs" for names xs
  proof -
    from that obtain all_tracks' rid' w' where
      "artist_loop names ([], [], rid, w) = Inr (all_tracks', xs, rid', w')"
      by (auto simp: track_ids_to_add_def split: sum.splits prod.splits)
    from artist_loop_blocks [OF this] show ?thesis by simp
  qed
  have single: "distinct ids" if "track_ids_to_add w rid [name] = Inr ids"
  proof -
    from blocks [OF that] obtain parts where
      p: "ids = concat parts" "length parts = 1" "\<forall>p \<in> set parts. distinct p \<and> length p \<le> 3"
      by auto
    from p(2) obtain q where "parts = [q]" by (cases parts) auto
    with p show ?thesis by simp
  qed
  from blocks single returned_tracks_distinct show ?thesis by blast
qed

theorem per_artist_ids_distinct_witness:
  "returned_tracks ex_world 1 ''Future'' = Inr ex_selection
   \<and> distinct (map track_id ex_selection)
   \<and> track_ids_to_add ex_world 1 [''Future''] = Inr [''id1'', ''id2'', ''id4'']
   \<and> distinct [''id1'', ''id2'', ''id4'']
   \<and> track_ids_to_add ex_run 3 FAVORITE_ARTISTS = Inr [''abc123'', ''abc123'']
   \<and> (\<exists>parts. [''abc123'', ''abc123''] = concat parts \<and> length parts = length FAVORITE_ARTISTS
         \<and> (\<forall>p \<in> set parts. distinct p \<and> length p \<le> 3))"
proof -
  have i: "track_ids_to_add ex_world 1 [''Future''] = Inr [''id1'', ''id2'', ''id4'']"
    by code_simp
  from per_artist_ids_distinct [of ex_world 1 "''Future''" ex_selection "[''Future'']"
      "[''id1'', ''id2'', ''id4'']"] ex_returned i
  have 1: "distinct (map track_id ex_selection)" "distinct [''id1'', ''id2'', ''id4'']"
    by blast+
  from per_artist_ids_distinct [of ex_run 3 "''Future''" ex_selection FAVORITE_ARTISTS
      "[''abc123'', ''abc123'']"] ex_run_ids
  have 2: "\<exists>parts. [''abc123'', ''abc123''] = concat parts \<and> length parts = length FAVORITE_ARTISTS
         \<and> (\<forall>p \<in> set parts. distinct p \<and> length p \<le> 3)"
    by blast
  from ex_returned i 1 ex_run_ids 2 show ?thesis by blast
qed

text \<open>
  C1, as stated, fails: in a run over \<open>FAVORITE_ARTISTS\<close> in which the server lists one
  track by "Metro Boomin, Future" for the artist Future and again for the artist
  Metro Boomin, the list of ids handed to \<open>addTracksToPlaylist\<close> holds the id twice.
\<close>

theorem run_ids_counterexample:
  "track_ids_to_add ex_run 3 FAVORITE_ARTISTS = Inr [''abc123'', ''abc123'']
   \<and> last_request (add_recent_tracks ex_run 3 ''pl1'' FAVORITE_ARTISTS)
       = Inr (AddTracksToPlaylist ''pl1'' [''abc123'', ''abc123''])
   \<and> \<not> distinct [''abc123'', ''abc123'']"
  using ex_run_ids ex_run_request by simp

text \<open>
  C2, as amended. A line in the format of the server is kept as a candidate with its date
  token as it is, for every token of four, two and two digits, whether it is a date of the
  calendar or not, and the candidates of each line of a text are among those of the text.
  A token of four, two and two digits that is no date of the calendar is parsed to the
  unknown date, and a track with an unknown date is not recent for any cutoff and is in no
  selection.
\<close>

theorem malformed_date_absorbed:
  "(wellformed_fields n ti ar du tid \<longrightarrow>
      track_of_line
        (search_line n ti ar du (four_digits y @ ''-'' @ two_digits m @ ''-'' @ two_digits d) tid)
      = [\<lparr>title = strip ti, artist = strip ar,
          release_date = four_digits y @ ''-'' @ two_digits m @ ''-'' @ two_digits d,
          track_id = takeWhile isalnum tid\<rparr>])
   \<and> (line \<in> set (split newline txt) \<longrightarrow>
        set (track_of_line line) \<subseteq> set (extract_track_info_with_dates txt))
   \<and> (y < 10000 \<and> m < 100 \<and> d < 100 \<and> \<not> valid_date y m d \<longrightarrow>
        parse_spotify_date (four_digits y @ ''-'' @ two_digits m @ ''-'' @ two_digits d)
          = Inr None)
   \<and> (parse_spotify_date (release_date t) = Inr None \<longrightarrow>
        is_recent_release (release_date t) c = Inr False
        \<and> (select_for_artist name c cands = Inr sel \<longrightarrow> t \<notin> set sel))"
proof (intro conjI impI)
  assume "wellformed_fields n ti ar du tid"
  then show "track_of_line
        (search_line n ti ar du (four_digits y @ ''-'' @ two_digits m @ ''-'' @ two_digits d) tid)
      = [\<lparr>title = strip ti, artist = strip ar,
          release_date = four_digits y @ ''-'' @ two_digits m @ ''-'' @ two_digits d,
          track_id = takeWhile isalnum tid\<rparr>]"
    by (rule track_of_line_wellformed)
next
  assume "line \<in> set (split newline txt)"
  then show "set (track_of_line line) \<subseteq> set (extract_track_info_with_dates txt)"
    by (auto simp: extract_track_info_with_dates_def extract_lines_set)
next
  assume a: "y < 10000 \<and> m < 100 \<and> d < 100 \<and> \<not> valid_date y m d"
  then show "parse_spotify_date (four_digits y @ ''-'' @ two_digits m @ ''-'' @ two_digits d)
      = Inr None"
    using parse_full [of y m d "four_digits y @ ''-'' @ two_digits m @ ''-'' @ two_digits d"]
    by (simp only: strip_iso) simp
next
  assume "parse_spotify_date (release_date t) = Inr None"
  then show "is_recent_release (release_date t) c = Inr False"
    by (rule unknown_never_selected)
next
  assume "parse_spotify_date (release_date t) = Inr None"
    and "select_for_artist name c cands = Inr sel"
  then show "t \<notin> set sel" by (rule unknown_never_selected)
qed

theorem malformed_date_absorbed_witness:
  "track_of_line ex_month13_line = [ex_track ''Good Vibes'' ''Future'' ''2025-13-01'' ''abc123'']
   \<and> ex_track ''Good Vibes'' ''Future'' ''2025-13-01'' ''abc123''
        \<in> set (extract_track_info_with_dates ex_month13_line)
   \<and> parse_spotify_date ''2025-13-01'' = Inr None
   \<and> is_recent_release ''2025-13-01'' ex_cutoff = Inr False
   \<and> select_for_artist ''Future'' ex_cutoff
        [ex_track ''Good Vibes'' ''Future'' ''2025-13-01'' ''abc123''] = Inr []"
proof -
  let ?t = "ex_track ''Good Vibes'' ''Future'' ''2025-13-01'' ''abc123''"
  note inst = malformed_date_absorbed [of "''1''" "''Good Vibes''" "''Future''" "''3:20''"
      "''abc123''" 2025 13 1 ex_month13_line ex_month13_line ?t ex_cutoff "''Future''" "[?t]" "[]"]
  have wf: "wellformed_fields ''1'' ''Good Vibes'' ''Future'' ''3:20'' ''abc123''" by code_simp
  have e: "strip ''Good Vibes'' = ''Good Vibes''" "strip ''Future'' = ''Future''"
    "takeWhile isalnum ''abc123'' = ''abc123''"
    by code_simp+
  have line: "ex_month13_line \<in> set (split newline ex_month13_line)" by code_simp
  have nums: "(2025::nat) < 10000 \<and> (13::nat) < 100 \<and> (1::nat) < 100 \<and> \<not> valid_date 2025 13 1"
    by code_simp
  have tok: "four_digits 2025 @ ''-'' @ two_digits 13 @ ''-'' @ two_digits 1 = ''2025-13-01''"
    by code_simp
  have sel: "select_for_artist ''Future'' ex_cutoff [?t] = Inr []" by code_simp
  have rd: "release_date ?t = ''2025-13-01''" by (simp add: ex_track_def)
  from inst wf have 1: "track_of_line ex_month13_line = [?t]"
    by (simp only: tok e ex_month13_line_def ex_track_def)
  from inst line 1 have 2: "?t \<in> set (extract_track_info_with_dates ex_month13_line)" by simp
  from inst nums have 3: "parse_spotify_date ''2025-13-01'' = Inr None" by (simp only: tok) simp
  from inst 3 have 4: "is_recent_release ''2025-13-01'' ex_cutoff = Inr False" by (simp add: rd)
  from 1 2 3 4 sel show ?thesis by blast
qed

text \<open>
  C2, as stated, fails: the line with month 13 in its date is not excluded by
  \<open>extract_track_info_with_dates\<close>, it is a candidate.
\<close>

theorem malformed_line_counterexample:
  "extract_track_info_with_dates ex_month13_line
     = [ex_track ''Good Vibes'' ''Future'' ''2025-13-01'' ''abc123'']"
  by code_simp



text \<open>
  C4, as amended. \<open>parse_spotify_date\<close> never raises, and its result depends on the token
  only through the token stripped of surrounding whitespace. For the stripped token: the
  literal \<open>Unknown\<close> gives the unknown date; four, two and two digits \<open>YYYY-MM-DD\<close> give
  that date when it is a date of the calendar, and the unknown date when it is not; four
  and two digits \<open>YYYY-MM\<close> give the first day of that month, or the unknown date when
  there is no such month; four digits \<open>YYYY\<close> give January 1 of that year, or the unknown
  date for the year 0; the day may also be written as a blank and one digit, \<open>YYYY-MM- D\<close>,
  which \<open>strptime\<close> reads as the day \<open>D\<close>; and a token of any other shape, the empty
  token included, gives the unknown date.
\<close>

theorem normalize_date:
  "(\<exists>r. parse_spotify_date s = Inr r)
   \<and> parse_spotify_date s = parse_spotify_date (strip s)
   \<and> (strip s = ''Unknown'' \<longrightarrow> parse_spotify_date s = Inr None)
   \<and> (y < 10000 \<and> m < 100 \<and> d < 100 \<longrightarrow>
        (strip s = four_digits y @ ''-'' @ two_digits m @ ''-'' @ two_digits d \<longrightarrow>
           parse_spotify_date s = Inr (if valid_date y m d then Some (midnight y m d) else None))
      \<and> (strip s = four_digits y @ ''-'' @ two_digits m \<longrightarrow>
           parse_spotify_date s = Inr (if valid_date y m 1 then Some (midnight y m 1) else None))
      \<and> (strip s = four_digits y \<longrightarrow>
           parse_spotify_date s = Inr (if 1 \<le> y then Some (midnight y 1 1) else None))
      \<and> (d < 10 \<and> strip s = four_digits y @ ''-'' @ two_digits m @ ''- '' @ [digit_char d] \<longrightarrow>
           parse_spotify_date s = Inr (if valid_date y m d then Some (midnight y m d) else None)))
   \<and> (shape (strip s) \<notin> {''9999-99-99'', ''9999-99- 9'', ''9999-99'', ''9999''} \<longrightarrow>
        parse_spotify_date s = Inr None)"
  using parse_spotify_date_total [of s] parse_strip [of s] parse_unknown [of s]
    parse_full [of y m d s] parse_month [of y m s] parse_year [of y s]
    parse_blank_day [of y m d s] parse_other_shape [of s]
  by (intro conjI impI) (simp_all del: set_simps)

theorem normalize_date_witness:
  "parse_spotify_date ''Unknown'' = Inr None
   \<and> parse_spotify_date ''2025-03-15'' = Inr (Some (midnight 2025 3 15))
   \<and> parse_spotify_date ''2025-03'' = Inr (Some (midnight 2025 3 1))
   \<and> parse_spotify_date ''2025'' = Inr (Some (midnight 2025 1 1))
   \<and> parse_spotify_date ''2025-03- 5'' = Inr (Some (midnight 2025 3 5))
   \<and> parse_spotify_date [] = Inr None
   \<and> parse_spotify_date ''2025/03/15'' = Inr None
   \<and> parse_spotify_date ''2025-13-01'' = Inr None"
proof -
  have bounds: "(2025::nat) < 10000 \<and> (3::nat) < 100 \<and> (15::nat) < 100"
    "(2025::nat) < 10000 \<and> (3::nat) < 100 \<and> (5::nat) < 100" "(5::nat) < 10"
    "(2025::nat) < 10000 \<and> (13::nat) < 100 \<and> (1::nat) < 100"
    by simp_all
  have valid: "valid_date 2025 3 15" "valid_date 2025 3 1" "\<not> valid_date 2025 13 1"
    "(1::nat) \<le> 2025" "valid_date 2025 3 5"
    by code_simp+
  have s1: "strip ''Unknown'' = ''Unknown''" by code_simp
  have s2: "strip ''2025-03-15'' = four_digits 2025 @ ''-'' @ two_digits 3 @ ''-'' @ two_digits 15"
    by code_simp
  have s3: "strip ''2025-03'' = four_digits 2025 @ ''-'' @ two_digits 3" by code_simp
  have s4: "strip ''2025'' = four_digits 2025" by code_simp
  have s5: "shape (strip []) \<notin> {''9999-99-99'', ''9999-99- 9'', ''9999-99'', ''9999''}"
    by code_simp
  have s6: "strip ''2025-13-01'' = four_digits 2025 @ ''-'' @ two_digits 13 @ ''-'' @ two_digits 1"
    by code_simp
  have s7: "strip ''2025-03- 5'' = four_digits 2025 @ ''-'' @ two_digits 3 @ ''- '' @ [digit_char 5]"
    by code_simp
  have s8: "shape (strip ''2025/03/15'') \<notin> {''9999-99-99'', ''9999-99- 9'', ''9999-99'', ''9999''}"
    by code_simp
  from normalize_date [of "''Unknown''"] s1
  have 1: "parse_spotify_date ''Unknown'' = Inr None" by blast
  from normalize_date [of "''2025-03-15''" 2025 3 15] bounds(1) s2
  have "parse_spotify_date ''2025-03-15''
      = Inr (if valid_date 2025 3 15 then Some (midnight 2025 3 15) else None)"
    by blast
  with valid(1) have 2: "parse_spotify_date ''2025-03-15'' = Inr (Some (midnight 2025 3 15))"
    by simp
  from normalize_date [of "''2025-03''" 2025 3 15] bounds(1) s3
  have "parse_spotify_date ''2025-03''
      = Inr (if valid_date 2025 3 1 then Some (midnight 2025 3 1) else None)"
    by blast
  with valid(2) have 3: "parse_spotify_date ''2025-03'' = Inr (Some (midnight 2025 3 1))"
    by simp
  from normalize_date [of "''2025''" 2025 3 15] bounds(1) s4
  have "parse_spotify_date ''2025'' = Inr (if 1 \<le> (2025::nat) then Some (midnight 2025 1 1) else None)"
    by blast
  with valid(4) have 4: "parse_spotify_date ''2025'' = Inr (Some (midnight 2025 1 1))"
    by simp
  from normalize_date [of "''2025-03- 5''" 2025 3 5] bounds(2,3) s7
  have "parse_spotify_date ''2025-03- 5''
      = Inr (if valid_date 2025 3 5 then Some (midnight 2025 3 5) else None)"
    by blast
  with valid(5) have 5: "parse_spotify_date ''2025-03- 5'' = Inr (Some (midnight 2025 3 5))"
    by simp
  from normalize_date [of "[]"] s5
  have 6: "parse_spotify_date [] = Inr None" by blast
  from normalize_date [of "''2025/03/15''"] s8
  have 7: "parse_spotify_date ''2025/03/15'' = Inr None" by blast
  from normalize_date [of "''2025-13-01''" 2025 13 1] bounds(4) s6
  have "parse_spotify_date ''2025-13-01''
      = Inr (if valid_date 2025 13 1 then Some (midnight 2025 13 1) else None)"
    by blast
  with valid(3) have 8: "parse_spotify_date ''2025-13-01'' = Inr None"
    by simp
  from 1 2 3 4 5 6 7 8 show ?thesis by blast
qed

text \<open>
  C4, as stated, fails: the token \<open>" 2025"\<close> has five characters, which is none of the
  shapes \<open>YYYY-MM-DD\<close>, \<open>YYYY-MM\<close> and \<open>YYYY\<close>, and it is not mapped to the unknown date but to
  January 1, 2025, since the function strips its argument first.
\<close>

theorem normalize_date_counterexample:
  "length '' 2025'' = 5 \<and> parse_spotify_date '' 2025'' = Inr (Some (midnight 2025 1 1))"
  by code_simp

text \<open>
  C5. The list that \<open>search_artist_tracks\<close> returns has at most 3 tracks. The selection
  on a list of candidates never raises and has at most 3 tracks; once it has 3, candidates
  that come later do not change it.
\<close>

theorem cap_law:
  "(returned_tracks w rid name = Inr tracks \<longrightarrow> length tracks \<le> 3)
   \<and> (\<exists>sel. select_for_artist name c cands = Inr sel \<and> length sel \<le> 3
        \<and> (length sel = 3 \<longrightarrow> select_for_artist name c (cands @ later) = Inr sel))"
proof
  show "returned_tracks w rid name = Inr tracks \<longrightarrow> length tracks \<le> 3"
    using returned_tracks_length by blast
next
  from select_for_artist_result [of name c cands] obtain found where
    f: "track_loop name c [] cands = Inr found"
       "select_for_artist name c cands = Inr (take 3 found)"
    by blast
  from track_loop_result [of name c found later] obtain new where
    n: "track_loop name c found later = Inr (found @ new)" by blast
  have "length (take 3 found) = 3
      \<longrightarrow> select_for_artist name c (cands @ later) = Inr (take 3 found)"
    using f n by (simp add: select_for_artist_def track_loop_append)
  with f(2) show "\<exists>sel. select_for_artist name c cands = Inr sel \<and> length sel \<le> 3
        \<and> (length sel = 3 \<longrightarrow> select_for_artist name c (cands @ later) = Inr sel)"
    by auto
qed

theorem cap_law_witness:
  "returned_tracks ex_world 1 ''Future'' = Inr ex_selection
   \<and> select_for_artist ''Future'' ex_cutoff ex_candidates = Inr ex_selection
   \<and> length ex_selection = 3
   \<and> select_for_artist ''Future'' ex_cutoff
        (ex_candidates @ [ex_track ''Theta'' ''Future'' ''2025-01-09'' ''id9'']) = Inr ex_selection"
proof -
  have l: "length ex_selection = 3" by (simp add: ex_selection_def)
  from cap_law [of ex_world 1 "''Future''" ex_selection ex_cutoff ex_candidates
      "[ex_track ''Theta'' ''Future'' ''2025-01-09'' ''id9'']"] ex_returned ex_select l
  show ?thesis by auto
qed

text \<open>
  C6. The selection is a subsequence of the candidates, in their order: of the given list
  for the selection on a list, and of the candidates parsed from the responses, in the
  order of the queries, for the list that \<open>search_artist_tracks\<close> returns.
\<close>

theorem order_preserved:
  "(select_for_artist name c cands = Inr sel \<longrightarrow> subseq sel cands)
   \<and> (returned_tracks w rid name = Inr tracks \<longrightarrow> subseq tracks (candidates w))"
proof -
  have a: "subseq sel xs" if "select_for_artist name c xs = Inr sel" for c xs sel
  proof -
    from select_for_artist_result [of name c xs] that obtain found where
      "sel = take 3 found" "subseq found xs" by auto
    moreover have "subseq (take 3 found) found"
      by (rule prefix_imp_subseq [OF take_is_prefix])
    ultimately show ?thesis using subseq_order.trans by blast
  qed
  show ?thesis using a returned_tracks_select by blast
qed

theorem order_preserved_witness:
  "select_for_artist ''Future'' ex_cutoff ex_candidates = Inr ex_selection
   \<and> subseq ex_selection ex_candidates
   \<and> returned_tracks ex_world 1 ''Future'' = Inr ex_selection
   \<and> candidates ex_world = ex_candidates
   \<and> subseq ex_selection (candidates ex_world)"
  using order_preserved [of "''Future''" ex_cutoff ex_candidates ex_selection ex_world 1 ex_selection]
    ex_select ex_returned ex_candidates_eq
  by blast

text \<open>
  C7. The selection is idempotent: run on its own output, with the same artist and the
  same cutoff, it returns that output.
\<close>

theorem selection_idempotent:
  "\<exists>sel. select_for_artist name c cands = Inr sel \<and> select_for_artist name c sel = Inr sel"
proof -
  from select_for_artist_result [of name c cands] obtain found where
    f: "select_for_artist name c cands = Inr (take 3 found)"
       "\<forall>t \<in> set found. accepts name c t" "distinct (map track_id found)"
    by blast
  have "\<forall>t \<in> set (take 3 found). accepts name c t"
    using f(2) by (meson in_set_takeD)
  moreover have "distinct (map track_id ([] @ take 3 found))"
    using f(3) by (simp add: take_map [symmetric])
  ultimately have "track_loop name c [] (take 3 found) = Inr ([] @ take 3 found)"
    by (rule track_loop_keep_all)
  then have "select_for_artist name c (take 3 found) = Inr (take 3 found)"
    by (simp add: select_for_artist_def)
  with f(1) show ?thesis by blast
qed

theorem selection_idempotent_witness:
  "select_for_artist ''Future'' ex_cutoff ex_candidates = Inr ex_selection
   \<and> select_for_artist ''Future'' ex_cutoff ex_selection = Inr ex_selection"
  using selection_idempotent [of "''Future''" ex_cutoff ex_candidates] ex_select
  by auto

text \<open>
  C8. A candidate passes the test on the artist exactly when the query occurs in its
  artist text as a substring, up to the case of the letters; the loop over the tracks sees
  only the candidates that pass; and the query "Future" matches the artist text
  "Metro Boomin, Future".
\<close>

theorem artist_filter:
  "(artist_matches name t \<longleftrightarrow> occurs_ci name (artist t))
   \<and> track_loop name c found cands = track_loop name c found (filter (artist_matches name) cands)
   \<and> artist_matches ''Future''
        \<lparr>title = ti, artist = ''Metro Boomin, Future'', release_date = rd, track_id = i\<rparr>"
  using artist_matches_iff track_loop_filter future_example
  by (simp add: artist_matches_def)

theorem artist_filter_witness:
  "artist_matches ''future'' (ex_track ''Beta'' ''Metro Boomin, FUTURE'' ''2025-01-09'' ''id2'')
   \<and> occurs_ci ''future'' ''Metro Boomin, FUTURE''
   \<and> \<not> artist_matches ''Drake'' (ex_track ''Beta'' ''Metro Boomin, FUTURE'' ''2025-01-09'' ''id2'')
   \<and> \<not> occurs_ci ''Drake'' ''Metro Boomin, FUTURE''"
proof -
  let ?t = "ex_track ''Beta'' ''Metro Boomin, FUTURE'' ''2025-01-09'' ''id2''"
  have a: "artist_matches ''future'' ?t" "\<not> artist_matches ''Drake'' ?t" by code_simp+
  have ar: "artist ?t = ''Metro Boomin, FUTURE''" by (simp add: ex_track_def)
  from artist_filter [of "''future''" ?t] a(1) ar
  have 1: "occurs_ci ''future'' ''Metro Boomin, FUTURE''" by simp
  from artist_filter [of "''Drake''" ?t] a(2) ar
  have 2: "\<not> occurs_ci ''Drake'' ''Metro Boomin, FUTURE''" by simp
  from a 1 2 show ?thesis by blast
qed

text \<open>
  C9. The tracks that \<open>search_artist_tracks\<close> returns are a function of the artist, the
  cutoff and the candidates: two calls that return, in worlds in which the cutoff is the
  same and the candidates are the same, return the same tracks, whatever the request ids,
  the requests written before, the later responses and the other readings of the clock
  are; and two calls that read the same cutoff and the same three responses have the same
  outcome, an exception included.
\<close>

theorem selection_deterministic:
  "(returned_tracks w1 r1 name = Inr t1 \<and> returned_tracks w2 r2 name = Inr t2
      \<and> cutoff_read w1 = cutoff_read w2 \<and> candidates w1 = candidates w2 \<longrightarrow> t1 = t2)
   \<and> (cutoff_read w1 = cutoff_read w2 \<and> take 3 (stdout w1) = take 3 (stdout w2) \<longrightarrow>
        returned_tracks w1 r1 name = returned_tracks w2 r2 name)"
proof (intro conjI impI)
  assume "returned_tracks w1 r1 name = Inr t1 \<and> returned_tracks w2 r2 name = Inr t2
      \<and> cutoff_read w1 = cutoff_read w2 \<and> candidates w1 = candidates w2"
  then show "t1 = t2"
    using returned_tracks_select [of w1 r1 name t1] returned_tracks_select [of w2 r2 name t2]
    by auto
next
  assume "cutoff_read w1 = cutoff_read w2 \<and> take 3 (stdout w1) = take 3 (stdout w2)"
  then have a: "cutoff_read w1 = cutoff_read w2" "take 3 (stdout w1) = take 3 (stdout w2)"
    by simp_all
  then have b: "candidates w1 = candidates w2" by (simp add: candidates_def)
  show "returned_tracks w1 r1 name = returned_tracks w2 r2 name"
    by (simp only: returned_tracks_eq a b)
qed

theorem selection_deterministic_witness:
  "returned_tracks ex_world 1 ''Future'' = Inr ex_selection
   \<and> returned_tracks ex_world2 7 ''Future'' = Inr ex_selection
   \<and> cutoff_read ex_world = cutoff_read ex_world2
   \<and> candidates ex_world = candidates ex_world2
   \<and> take 3 (stdout ex_world) = take 3 (stdout ex_world2)
   \<and> returned_tracks ex_world 1 ''Future'' = returned_tracks ex_world2 7 ''Future''"
proof -
  have c: "cutoff_read ex_world = cutoff_read ex_world2" by (simp add: ex_cutoff_reads)
  from selection_deterministic [of ex_world 1 "''Future''" ex_selection ex_world2 7 ex_selection]
    ex_returned ex_returned2 c ex_same_responses
  show ?thesis by blast
qed

text \<open>
  C10. The id of a track parsed from a line is a nonempty run of ASCII letters and digits
  that follows \<open>ID:\<close> and whitespace in the line and that is maximal: the line ends after it
  or goes on with another character. When the pattern matches up to \<open>ID:\<close> and whitespace
  and a letter or digit follows, the line gives a track whose id is that run, whatever
  comes after it. So a line in the format of the server whose id token starts with a letter
  or digit gives a track, and its id is the id token cut at the first character that is
  neither; the id token \<open>abc-123\<close> gives the id \<open>abc\<close>.
\<close>

theorem id_group_maximal:
  "(track_of_line line = [t] \<longrightarrow>
      (\<exists>pre ws rest. line = pre @ ''ID:'' @ ws @ track_id t @ rest \<and> list_all isspace ws
         \<and> track_id t \<noteq> [] \<and> list_all isalnum (track_id t)
         \<and> (rest = [] \<or> \<not> isalnum (hd rest))))
   \<and> (track_head line = ((g1, g2, g3), r) # hs \<and> r \<noteq> [] \<and> isalnum (hd r) \<longrightarrow>
        track_of_line line =
          [\<lparr>title = strip g1, artist = strip g2, release_date = strip g3,
            track_id = takeWhile isalnum r\<rparr>])
   \<and> (wellformed_fields n ti ar du tid \<longrightarrow>
        map track_id (track_of_line
          (search_line n ti ar du (four_digits y @ ''-'' @ two_digits m @ ''-'' @ two_digits d) tid))
        = [takeWhile isalnum tid])"
  using track_of_line_id [of line t] track_of_line_head [of line g1 g2 g3 r hs]
    track_of_line_wellformed [of n ti ar du tid y m d]
  by simp

theorem id_group_maximal_witness:
  "track_of_line ex_hyphen_line = [ex_track ''Good Vibes'' ''Future'' ''2025-01-01'' ''abc'']
   \<and> map track_id (track_of_line ex_hyphen_line) = [''abc'']
   \<and> (\<exists>pre ws rest. ex_hyphen_line = pre @ ''ID:'' @ ws @ ''abc'' @ rest \<and> list_all isspace ws
         \<and> (rest = [] \<or> \<not> isalnum (hd rest)))"
proof -
  let ?t = "ex_track ''Good Vibes'' ''Future'' ''2025-01-01'' ''abc''"
  note inst = id_group_maximal [of ex_hyphen_line ?t "''Good Vibes''" "''Future ''"
      "''2025-01-01''" "''abc-123''"
      "[((''Good Vibes'', ''Future '', ''2025-01-01''), '' abc-123''),
        ((''Good Vibes'', ''Future'', ''2025-01-01''), ''abc-123''),
        ((''Good Vibes'', ''Future'', ''2025-01-01''), '' abc-123'')]"
      "''1''" "''Good Vibes''" "''Future''" "''3:20''" "''abc-123''" 2025 1 1]
  have r: "''abc-123'' \<noteq> [] \<and> isalnum (hd ''abc-123'')" by code_simp
  have wf: "wellformed_fields ''1'' ''Good Vibes'' ''Future'' ''3:20'' ''abc-123''" by code_simp
  have tok: "four_digits 2025 @ ''-'' @ two_digits 1 @ ''-'' @ two_digits 1 = ''2025-01-01''"
    by code_simp
  have e: "strip ''Good Vibes'' = ''Good Vibes''" "strip ''Future '' = ''Future''"
    "strip ''2025-01-01'' = ''2025-01-01''" "takeWhile isalnum ''abc-123'' = ''abc''"
    by code_simp+
  from inst ex_hyphen_head r have 1: "track_of_line ex_hyphen_line = [?t]"
    by (simp only: e ex_track_def) blast
  from inst wf have 2: "map track_id (track_of_line ex_hyphen_line) = [''abc'']"
    by (simp only: tok e ex_hyphen_line_def)
  have id: "track_id ?t = ''abc''" by (simp add: ex_track_def)
  from inst 1 have "\<exists>pre ws rest. ex_hyphen_line = pre @ ''ID:'' @ ws @ track_id ?t @ rest
      \<and> list_all isspace ws \<and> track_id ?t \<noteq> [] \<and> list_all isalnum (track_id ?t)
      \<and> (rest = [] \<or> \<not> isalnum (hd rest))"
    by blast
  then have "\<exists>pre ws rest. ex_hyphen_line = pre @ ''ID:'' @ ws @ ''abc'' @ rest
      \<and> list_all isspace ws \<and> (rest = [] \<or> \<not> isalnum (hd rest))"
    unfolding id by blast
  with 1 2 show ?thesis by blast
qed

end
